theory Spec2Isabelle
  imports Main
begin

section \<open>Strings as Python sees them\<close>

text \<open>
  A Python \<open>str\<close> is modelled as a \<open>string\<close> whose characters are the code points
  below 256. On these, \<open>str.isspace\<close>, \<open>str.strip\<close> and \<open>str.lower\<close> are as follows.
\<close>

definition py_isspace :: "char \<Rightarrow> bool" where
  "py_isspace c =
     (let n = (of_char c :: nat)
      in (9 \<le> n \<and> n \<le> 13) \<or> (28 \<le> n \<and> n \<le> 32) \<or> n = 133 \<or> n = 160)"

definition py_strip :: "string \<Rightarrow> string" where
  "py_strip s = rev (dropWhile py_isspace (rev (dropWhile py_isspace s)))"

definition py_lower_char :: "char \<Rightarrow> char" where
  "py_lower_char c =
     (let n = (of_char c :: nat)
      in if (65 \<le> n \<and> n \<le> 90) \<or> (192 \<le> n \<and> n \<le> 222 \<and> n \<noteq> 215)
         then char_of (n + 32) else c)"

definition py_lower :: "string \<Rightarrow> string" where
  "py_lower s = map py_lower_char s"

section \<open>The upstream WHOIS service\<close>

text \<open>
  The value \<open>r.json()\<close> returns. A \<open>JObj\<close> is a Python dict, given by its items;
  the keys of a dict are distinct, so \<open>map_of\<close> reads it.
\<close>

datatype json =
    JNull
  | JBool bool
  | JNum int
  | JStr string
  | JArr "json list"
  | JObj "(string \<times> json) list"

datatype py_error =
    TimeoutException
  | ConnectError
  | JSONDecodeError
  | AttributeError
  | ValueError
  | OperationalError
  | SMTPException

text \<open>
  What one \<open>client.get(url)\<close> followed by \<open>r.json()\<close> can do: the request times out
  (10 seconds), the network fails, the body is not JSON, or a JSON value is read.
  The HTTP status code is not looked at by the source.
\<close>

datatype upstream = Timeout | NetworkError | MalformedBody | JsonBody json

text \<open>\<open>x.get(key, default)\<close>: only a dict has the method.\<close>

definition py_get :: "json \<Rightarrow> string \<Rightarrow> json \<Rightarrow> py_error + json" where
  "py_get x key dflt =
     (case x of
        JObj kvs \<Rightarrow> Inr (case map_of kvs key of Some v \<Rightarrow> v | None \<Rightarrow> dflt)
      | _ \<Rightarrow> Inl AttributeError)"

text \<open>\<open>data.get("DomainInfo", {}).get("domainAvailability", "UNKNOWN")\<close>\<close>

definition domain_availability_field :: "json \<Rightarrow> py_error + json" where
  "domain_availability_field data =
     (case py_get data ''DomainInfo'' (JObj []) of
        Inl e \<Rightarrow> Inl e
      | Inr info \<Rightarrow> py_get info ''domainAvailability'' (JStr ''UNKNOWN''))"

text \<open>\<open>x.strip().lower()\<close>: only a str has the methods.\<close>

definition strip_lower :: "json \<Rightarrow> py_error + string" where
  "strip_lower x = (case x of JStr s \<Rightarrow> Inr (py_lower (py_strip s)) | _ \<Rightarrow> Inl AttributeError)"

text \<open>The two statements that open both \<open>try\<close> blocks: the request and the parse.\<close>

definition fetch_json :: "upstream \<Rightarrow> py_error + json" where
  "fetch_json u =
     (case u of
        Timeout \<Rightarrow> Inl TimeoutException
      | NetworkError \<Rightarrow> Inl ConnectError
      | MalformedBody \<Rightarrow> Inl JSONDecodeError
      | JsonBody j \<Rightarrow> Inr j)"

section \<open>Availability checker of app.py\<close>

text \<open>The body of the \<open>try\<close> block of \<open>check_domain_availability\<close> in app.py.\<close>

definition app_check_try :: "upstream \<Rightarrow> py_error + bool" where
  "app_check_try u =
     (case fetch_json u of
        Inl e \<Rightarrow> Inl e
      | Inr data \<Rightarrow>
          (case domain_availability_field data of
             Inl e \<Rightarrow> Inl e
           | Inr v \<Rightarrow>
               (case strip_lower v of
                  Inl e \<Rightarrow> Inl e
                | Inr status \<Rightarrow> Inr (status = ''available''))))"

text \<open>
  \<open>check_domain_availability\<close> of app.py. The first argument is the network: what the
  upstream does with a query for the given domain. \<open>except Exception\<close> returns False.
\<close>

definition app_check_domain_availability :: "(string \<Rightarrow> upstream) \<Rightarrow> string \<Rightarrow> py_error + bool" where
  "app_check_domain_availability net domain =
     (case app_check_try (net domain) of
        Inl e \<Rightarrow> Inr False
      | Inr b \<Rightarrow> Inr b)"

section \<open>Availability checker of notifier.py\<close>

text \<open>The body of the \<open>try\<close> block of \<open>check_domain_availability\<close> in notifier.py.\<close>

definition notifier_check_try :: "upstream \<Rightarrow> py_error + bool" where
  "notifier_check_try u =
     (case fetch_json u of
        Inl e \<Rightarrow> Inl e
      | Inr data \<Rightarrow>
          (case domain_availability_field data of
             Inl e \<Rightarrow> Inl e
           | Inr status \<Rightarrow> Inr (status = JStr ''AVAILABLE'')))"

definition notifier_check_domain_availability :: "(string \<Rightarrow> upstream) \<Rightarrow> string \<Rightarrow> py_error + bool" where
  "notifier_check_domain_availability net domain =
     (case notifier_check_try (net domain) of
        Inl e \<Rightarrow> Inr False
      | Inr b \<Rightarrow> Inr b)"

text \<open>A response whose status field is the string \<open>s\<close>.\<close>

definition status_response :: "string \<Rightarrow> upstream" where
  "status_response s = JsonBody (JObj [(''DomainInfo'', JObj [(''domainAvailability'', JStr s)])])"

text \<open>The spec's "equals ... in any letter case": equal once letter case is ignored.\<close>

definition equals_ignoring_case :: "string \<Rightarrow> string \<Rightarrow> bool" where
  "equals_ignoring_case s t = (py_lower s = py_lower t)"

section \<open>The notification table\<close>

text \<open>
  One row of \<open>domain_notifications\<close>, with the columns \<open>init_db\<close> creates;
  \<open>row_id\<close> is the column \<open>id\<close> (the primary key).
\<close>

record notification =
  row_id :: nat
  domain_name :: string
  email :: string
  notified :: bool
  created_at :: nat
  last_checked_at :: "nat option"

text \<open>\<open>SELECT * FROM domain_notifications WHERE notified = 0\<close>\<close>

definition pending_rows :: "notification list \<Rightarrow> notification list" where
  "pending_rows t = filter (\<lambda>r. \<not> notified r) t"

text \<open>\<open>UPDATE domain_notifications SET notified = 1 WHERE id = i\<close>\<close>

definition sql_set_notified :: "nat \<Rightarrow> notification list \<Rightarrow> notification list" where
  "sql_set_notified i t = map (\<lambda>x. if row_id x = i then x\<lparr>notified := True\<rparr> else x) t"

section \<open>The poller of notifier.py\<close>

text \<open>
  What the outside world does during one cycle. The WHOIS service and the mail
  transport are asked once for every pending row; their answers are indexed by the id of
  the row being processed, so that two rows of the same domain or address may be answered
  differently. \<open>smtp\<close> gives the exception the SMTP session raises, if any.
  The database may refuse the connection, the SELECT, and the UPDATE or the commit of a row.
\<close>

record cycle_env =
  db_connect_ok :: bool
  db_select_ok :: bool
  whois :: "nat \<Rightarrow> string \<Rightarrow> upstream"
  smtp :: "nat \<Rightarrow> string \<Rightarrow> string \<Rightarrow> py_error option"
  db_update_ok :: "nat \<Rightarrow> bool"
  db_commit_ok :: "nat \<Rightarrow> bool"

text \<open>What the poller did, in order; the first component of each event is the row's id.\<close>

datatype event =
    Checked nat string bool
  | SendAttempt nat string string bool
  | MarkedNotified nat
  | Slept nat

record world =
  table :: "notification list"
  journal :: "event list"

text \<open>\<open>send_email_notification\<close>: True when the SMTP session ends without an exception.\<close>

definition send_email_notification :: "(string \<Rightarrow> string \<Rightarrow> py_error option) \<Rightarrow> string \<Rightarrow> string \<Rightarrow> bool" where
  "send_email_notification transport to_email domain =
     (case transport to_email domain of None \<Rightarrow> True | Some e \<Rightarrow> False)"

text \<open>
  The body of the \<open>for\<close> loop of \<open>check_and_notify\<close>. The result carries the exception
  that leaves the loop, if any; what was committed before it stays in the table.
\<close>

definition notify_record :: "cycle_env \<Rightarrow> notification \<Rightarrow> world \<Rightarrow> py_error option \<times> world" where
  "notify_record env record w =
     (let domain = domain_name record;
          em = email record
      in case notifier_check_domain_availability (whois env (row_id record)) domain of
           Inl e \<Rightarrow> (Some e, w)
         | Inr available \<Rightarrow>
             (let w1 = w\<lparr>journal := journal w @ [Checked (row_id record) domain available]\<rparr>
              in if available then
                   (let success = send_email_notification (smtp env (row_id record)) em domain;
                        w2 = w1\<lparr>journal := journal w1 @ [SendAttempt (row_id record) em domain success]\<rparr>
                    in if success then
                         (if \<not> db_update_ok env (row_id record) then (Some OperationalError, w2)
                          else if \<not> db_commit_ok env (row_id record) then (Some OperationalError, w2)
                          else (None, w2\<lparr>table := sql_set_notified (row_id record) (table w2),
                                          journal := journal w2 @ [MarkedNotified (row_id record)]\<rparr>))
                       else (None, w2))
                 else (None, w1)))"

fun notify_records :: "cycle_env \<Rightarrow> notification list \<Rightarrow> world \<Rightarrow> py_error option \<times> world" where
  "notify_records env [] w = (None, w)"
| "notify_records env (record # records) w =
     (case notify_record env record w of
        (Some e, w') \<Rightarrow> (Some e, w')
      | (None, w') \<Rightarrow> notify_records env records w')"

text \<open>\<open>check_and_notify\<close>: one cycle of the poller.\<close>

definition check_and_notify :: "cycle_env \<Rightarrow> world \<Rightarrow> py_error option \<times> world" where
  "check_and_notify env w =
     (if \<not> db_connect_ok env then (Some OperationalError, w)
      else if \<not> db_select_ok env then (Some OperationalError, w)
      else (let records = pending_rows (table w)
            in if records = [] then (None, w)
               else notify_records env records w))"

text \<open>
  The \<open>while True\<close> loop of the main program, run for as many cycles as environments are
  given. An exception that leaves a cycle ends the process.
\<close>

fun notifier_main_loop :: "cycle_env list \<Rightarrow> world \<Rightarrow> py_error option \<times> world" where
  "notifier_main_loop [] w = (None, w)"
| "notifier_main_loop (env # envs) w =
     (case check_and_notify env w of
        (Some e, w') \<Rightarrow> (Some e, w')
      | (None, w') \<Rightarrow> notifier_main_loop envs (w'\<lparr>journal := journal w' @ [Slept 30]\<rparr>))"

text \<open>A row is notified in a cycle when its check says available and its email is sent.\<close>

definition row_succeeds :: "cycle_env \<Rightarrow> notification \<Rightarrow> bool" where
  "row_succeeds env r =
     (notifier_check_domain_availability (whois env (row_id r)) (domain_name r) = Inr True
      \<and> send_email_notification (smtp env (row_id r)) (email r) (domain_name r))"

text \<open>The database accepts the UPDATE and the commit of the row.\<close>

definition row_persists :: "cycle_env \<Rightarrow> notification \<Rightarrow> bool" where
  "row_persists env r = (db_update_ok env (row_id r) \<and> db_commit_ok env (row_id r))"

text \<open>The database accepts everything a cycle over the table asks of it.\<close>

definition db_reliable :: "cycle_env \<Rightarrow> notification list \<Rightarrow> bool" where
  "db_reliable env t = (db_connect_ok env \<and> db_select_ok env \<and> list_all (row_persists env) t)"

text \<open>The ids the loop marks: those of the rows that succeed, up to the first refused write.\<close>

fun marked_ids :: "cycle_env \<Rightarrow> notification list \<Rightarrow> nat list" where
  "marked_ids env [] = []"
| "marked_ids env (r # rs) =
     (if row_succeeds env r
      then (if row_persists env r then row_id r # marked_ids env rs else [])
      else marked_ids env rs)"

definition set_notified_where :: "nat set \<Rightarrow> notification list \<Rightarrow> notification list" where
  "set_notified_where S t = map (\<lambda>x. if row_id x \<in> S then x\<lparr>notified := True\<rparr> else x) t"

text \<open>The row an event is about.\<close>

fun event_row :: "event \<Rightarrow> nat option" where
  "event_row (Checked i d b) = Some i"
| "event_row (SendAttempt i to_email d b) = Some i"
| "event_row (MarkedNotified i) = Some i"
| "event_row (Slept n) = None"

section \<open>Candidate generation of app.py\<close>

definition PREFIXES :: "string list" where
  "PREFIXES = [''get'', ''try'', ''go'', ''my'', ''join'', ''the'']"

definition SUFFIXES :: "string list" where
  "SUFFIXES = [''app'', ''hq'', ''site'', ''online'', ''tech'', ''co'', ''now'']"

definition TLDS :: "string list" where
  "TLDS = [''.com'', ''.io'', ''.co'', ''.xyz'', ''.net'']"

text \<open>The characters the pattern \<open>[^a-z0-9]\<close> leaves in place.\<close>

definition is_az09 :: "char \<Rightarrow> bool" where
  "is_az09 c = (let n = (of_char c :: nat) in (97 \<le> n \<and> n \<le> 122) \<or> (48 \<le> n \<and> n \<le> 57))"

text \<open>\<open>re.sub(r'[^a-z0-9]', '', w.strip().lower())\<close>\<close>

definition sanitize_word :: "string \<Rightarrow> string" where
  "sanitize_word w = filter is_az09 (py_lower (py_strip w))"

text \<open>
  The choices the source leaves to chance or to the hash table. \<open>random.choice(xs)\<close>
  returns \<open>xs[i]\<close> for some index below \<open>len(xs)\<close>: the number drawn is reduced modulo
  the length. \<open>list(ideas)\<close> lists a set in the order of its hash table, which the source
  does not fix: the order is built from \<open>set_order\<close>, each number picking the next element
  among those left, so that every order arises from some \<open>set_order\<close>.
\<close>

record chooser =
  extra_suffix_pick :: nat
  set_order :: "nat list"
  tld_pick :: "nat \<Rightarrow> nat"

definition random_choice :: "'a list \<Rightarrow> nat \<Rightarrow> 'a" where
  "random_choice xs n = xs ! (n mod length xs)"

fun set_iteration :: "nat list \<Rightarrow> 'a list \<Rightarrow> 'a list" where
  "set_iteration picks [] = []"
| "set_iteration [] (x # xs) = x # xs"
| "set_iteration (p # picks) (x # xs) =
     (let i = p mod length (x # xs)
      in (x # xs) ! i # set_iteration picks (take i (x # xs) @ drop (Suc i) (x # xs)))"

text \<open>\<open>xs[:limit]\<close>: a negative limit counts from the end.\<close>

definition slice_to :: "int \<Rightarrow> 'a list \<Rightarrow> 'a list" where
  "slice_to limit xs =
     (if 0 \<le> limit then take (nat limit) xs else take (nat (int (length xs) + limit)) xs)"

text \<open>The strings added to the set \<open>ideas\<close>, in the order the source adds them.\<close>

definition added_ideas :: "nat \<Rightarrow> string \<Rightarrow> string list" where
  "added_ideas extra k =
     map (\<lambda>pre. pre @ k) PREFIXES
     @ concat (map (\<lambda>suf. [k @ suf, k @ ''-'' @ suf]) SUFFIXES)
     @ [k]
     @ [k @ random_choice SUFFIXES extra]
     @ concat (map (\<lambda>pre. map (\<lambda>suf. pre @ k @ suf) (take 3 SUFFIXES)) (take 3 PREFIXES))"

text \<open>\<open>list(ideas)[:limit]\<close>: the names, before a TLD is appended.\<close>

definition idea_names :: "chooser \<Rightarrow> string \<Rightarrow> int \<Rightarrow> string list" where
  "idea_names ch keyword limit =
     (let k = sanitize_word keyword;
          ideas = remdups (added_ideas (extra_suffix_pick ch) k)
      in slice_to limit (set_iteration (set_order ch) ideas))"

text \<open>\<open>generate_domain_ideas\<close>; the i-th name gets the TLD of the i-th draw.\<close>

definition generate_domain_ideas :: "chooser \<Rightarrow> string \<Rightarrow> int \<Rightarrow> string list" where
  "generate_domain_ideas ch keyword limit =
     map (\<lambda>(i, name). name @ random_choice TLDS (tld_pick ch i))
       (enumerate 0 (idea_names ch keyword limit))"

section \<open>Alternatives for an unavailable domain, app.py\<close>

text \<open>
  What \<open>tldextract.extract\<close> returns; the library is not part of the repository and is
  a parameter of the model.
\<close>

record extract_result =
  ext_subdomain :: string
  ext_domain :: string
  ext_suffix :: string

text \<open>\<open>[f"{base}{tld}" for tld in TLDS if tld != f".{ext.suffix}"]\<close>\<close>

definition alternatives_for :: "extract_result \<Rightarrow> string list" where
  "alternatives_for ext =
     (let base = py_lower (ext_domain ext)
      in map (\<lambda>tld. base @ tld) (filter (\<lambda>tld. tld \<noteq> ''.'' @ ext_suffix ext) TLDS))"

text \<open>
  \<open>asyncio.gather(..., return_exceptions=True)\<close> hands back, for every request, the
  response or the exception it raised: a timeout or a network failure is an exception.
\<close>

definition is_exception :: "upstream \<Rightarrow> bool" where
  "is_exception resp = (resp = Timeout \<or> resp = NetworkError)"

text \<open>
  The loop over \<open>zip(alternatives, responses)\<close>. The body of its \<open>try\<close> block parses the
  response and reads the status as \<open>check_domain_availability\<close> of app.py does.
\<close>

fun collect_results :: "(string \<times> upstream) list \<Rightarrow> (string \<times> bool) list" where
  "collect_results [] = []"
| "collect_results ((alt, resp) # rest) =
     (if is_exception resp then collect_results rest
      else (case app_check_try resp of
              Inl e \<Rightarrow> collect_results rest
            | Inr available \<Rightarrow> (alt, available) # collect_results rest))"

text \<open>\<open>suggest_alternatives\<close>; an entry is the pair of \<open>fqdn\<close> and \<open>available\<close>.\<close>

definition suggest_alternatives ::
    "(string \<Rightarrow> extract_result) \<Rightarrow> (string \<Rightarrow> upstream) \<Rightarrow> string \<Rightarrow> (string \<times> bool) list" where
  "suggest_alternatives extract net domain =
     (let ext = extract domain;
          alternatives = alternatives_for ext;
          responses = map net alternatives;
          results = collect_results (zip alternatives responses)
      in if results = [] then map (\<lambda>alt. (alt, False)) alternatives else results)"

text \<open>
  A request is answered when it raised nothing and the body of the \<open>try\<close> block read a
  status from it; the status it then reports.
\<close>

definition answered :: "upstream \<Rightarrow> bool" where
  "answered resp =
     (\<not> is_exception resp \<and> (case app_check_try resp of Inl e \<Rightarrow> False | Inr b \<Rightarrow> True))"

definition reported_available :: "upstream \<Rightarrow> bool" where
  "reported_available resp = (app_check_try resp = Inr True)"

text \<open>What the extraction gives for \<open>example.com\<close>, and an upstream that times out for \<open>example.io\<close>.\<close>

definition example_extract :: "string \<Rightarrow> extract_result" where
  "example_extract d = \<lparr>ext_subdomain = [], ext_domain = ''example'', ext_suffix = ''com''\<rparr>"

definition example_net :: "string \<Rightarrow> upstream" where
  "example_net d =
     (if d = ''example.io'' then Timeout
      else if d = ''example.net'' then status_response ''AVAILABLE''
      else status_response ''UNAVAILABLE'')"

section \<open>The /notify route of app.py\<close>

text \<open>\<open>x or ""\<close> for what \<open>data.get(key)\<close> returns: None and the falsy values give \<open>""\<close>.\<close>

definition or_empty :: "json option \<Rightarrow> json" where
  "or_empty v =
     (case v of
        None \<Rightarrow> JStr []
      | Some x \<Rightarrow>
          (if x = JNull \<or> x = JBool False \<or> x = JNum 0 \<or> x = JStr [] \<or> x = JArr [] \<or> x = JObj []
           then JStr [] else x))"

text \<open>
  \<open>re.match(r"[^@]+@[^@]+\.[^@]+", email)\<close>. The match starts at the first character and
  need not reach the end. The first group can only end right before the first \<open>@\<close>, so
  there is at least one character before it; then, in the run of characters up to the next
  \<open>@\<close> or the end, a dot must occur with a character before it and a character after it.
\<close>

definition email_pattern_matches :: "string \<Rightarrow> bool" where
  "email_pattern_matches e =
     (let local_part = takeWhile (\<lambda>c. c \<noteq> CHR ''@'') e;
          rest = dropWhile (\<lambda>c. c \<noteq> CHR ''@'') e
      in local_part \<noteq> [] \<and> rest \<noteq> []
         \<and> CHR ''.'' \<in> set (butlast (tl (takeWhile (\<lambda>c. c \<noteq> CHR ''@'') (tl rest)))))"

text \<open>The spec's minimal pattern, in its words: contains \<open>@\<close>, has a \<open>.\<close> after it.\<close>

definition spec_minimal_pattern :: "string \<Rightarrow> bool" where
  "spec_minimal_pattern e = (CHR ''.'' \<in> set (dropWhile (\<lambda>c. c \<noteq> CHR ''@'') e))"

text \<open>
  The table with its AUTO_INCREMENT counter, and a connection with \<open>autocommit=False\<close>:
  an INSERT is held by the connection until \<open>commit\<close> makes it durable; \<open>rollback\<close>
  and \<open>close\<close> drop what is not committed.
\<close>

record store =
  rows :: "notification list"
  next_id :: nat

record connection =
  durable :: store
  uncommitted :: "notification list"

datatype db_op = Connect | ExecuteInsert | Commit | Rollback | Close

text \<open>Which of the three database calls of the route succeed.\<close>

record insert_env =
  ins_connect_ok :: bool
  ins_execute_ok :: bool
  ins_commit_ok :: bool

text \<open>
  \<open>INSERT INTO domain_notifications (domain_name, email, notified) VALUES (%s,%s,%s)\<close>:
  the id and \<open>created_at\<close> are the column defaults, \<open>last_checked_at\<close> is NULL.
\<close>

definition execute_insert :: "nat \<Rightarrow> string \<Rightarrow> string \<Rightarrow> bool \<Rightarrow> connection \<Rightarrow> connection" where
  "execute_insert now d e n conn =
     conn\<lparr>uncommitted := uncommitted conn @
        [\<lparr>row_id = next_id (durable conn) + length (uncommitted conn), domain_name = d, email = e,
          notified = n, created_at = now, last_checked_at = None\<rparr>]\<rparr>"

definition commit :: "connection \<Rightarrow> connection" where
  "commit conn =
     \<lparr>durable = \<lparr>rows = rows (durable conn) @ uncommitted conn,
                  next_id = next_id (durable conn) + length (uncommitted conn)\<rparr>,
      uncommitted = []\<rparr>"

definition rollback :: "connection \<Rightarrow> connection" where
  "rollback conn = conn\<lparr>uncommitted := []\<rparr>"

definition close :: "connection \<Rightarrow> store" where
  "close conn = durable conn"

text \<open>
  What the route answers: a JSON body with a status code, or an exception that leaves
  the view function (the framework answers it with a 500).
\<close>

datatype response = Json nat "(string \<times> string) list" | Unhandled py_error

fun status_code :: "response \<Rightarrow> nat" where
  "status_code (Json code body) = code"
| "status_code (Unhandled e) = 500"

text \<open>
  \<open>subscribe_for_notification\<close>. \<open>data\<close> is the dict \<open>request.get_json() or {}\<close>, \<open>now\<close>
  the database's clock. The result is the response, the table afterwards and the
  database calls made, in order.
\<close>

definition subscribe_for_notification ::
    "insert_env \<Rightarrow> nat \<Rightarrow> (string \<times> json) list \<Rightarrow> store \<Rightarrow> response \<times> store \<times> db_op list" where
  "subscribe_for_notification env now data st =
     (case strip_lower (or_empty (map_of data ''domain'')) of
        Inl e \<Rightarrow> (Unhandled e, st, [])
      | Inr domain \<Rightarrow>
          (case strip_lower (or_empty (map_of data ''email'')) of
             Inl e \<Rightarrow> (Unhandled e, st, [])
           | Inr em \<Rightarrow>
               if domain = [] \<or> em = [] then
                 (Json 400 [(''error'', ''domain and email required'')], st, [])
               else if \<not> email_pattern_matches em then
                 (Json 400 [(''error'', ''invalid email'')], st, [])
               else if \<not> ins_connect_ok env then
                 (Unhandled OperationalError, st, [Connect])
               else
                 (let conn = \<lparr>durable = st, uncommitted = []\<rparr>
                  in if \<not> ins_execute_ok env then
                       (Json 500 [(''error'', ''db error'')], close (rollback conn),
                        [Connect, ExecuteInsert, Rollback, Close])
                     else
                       (let conn1 = execute_insert now domain em False conn
                        in if \<not> ins_commit_ok env then
                             (Json 500 [(''error'', ''db error'')], close (rollback conn1),
                              [Connect, ExecuteInsert, Commit, Rollback, Close])
                           else
                             (Json 200
                                [(''message'', ''You will be notified when '' @ domain @ '' becomes available.''),
                                 (''domain'', domain), (''email'', em)],
                              close (commit conn1),
                              [Connect, ExecuteInsert, Commit, Close])))))"

section \<open>Start-up of the two processes\<close>

text \<open>
  The process environment after \<open>load_dotenv()\<close> is a map from names to values;
  \<open>os.getenv(name)\<close> reads it, \<open>os.getenv(name, default)\<close> with a default.
\<close>

definition getenv_default :: "(string \<rightharpoonup> string) \<Rightarrow> string \<Rightarrow> string \<Rightarrow> string" where
  "getenv_default environ name dflt = (case environ name of None \<Rightarrow> dflt | Some v \<Rightarrow> v)"

record app_config =
  app_whoisxml_api_key :: string
  app_db_host :: string
  app_db_user :: string
  app_db_password :: string
  app_db_name :: string
  app_name :: string

text \<open>
  The module level of app.py up to \<open>init_db()\<close>: the key is read and checked, then the
  table is created; \<open>db_ok\<close> says whether the database accepts that.
\<close>

definition app_startup :: "bool \<Rightarrow> (string \<rightharpoonup> string) \<Rightarrow> py_error + app_config" where
  "app_startup db_ok environ =
     (let key = environ ''WHOISXML_API_KEY''
      in if key = None \<or> key = Some [] then Inl ValueError
         else if \<not> db_ok then Inl OperationalError
         else Inr \<lparr>app_whoisxml_api_key = the key,
                   app_db_host = getenv_default environ ''DB_HOST'' ''localhost'',
                   app_db_user = getenv_default environ ''DB_USER'' ''root'',
                   app_db_password = getenv_default environ ''DB_PASSWORD'' [],
                   app_db_name = getenv_default environ ''DB_NAME'' ''domain_saas'',
                   app_name = getenv_default environ ''APP_NAME'' ''Domain Suggester SaaS''\<rparr>)"

record notifier_config =
  whoisxml_api_key :: "string option"
  db_host :: "string option"
  db_user :: "string option"
  db_password :: "string option"
  db_name :: "string option"
  email_host :: "string option"
  email_port :: int
  email_user :: "string option"
  email_password :: "string option"

text \<open>
  The module level of notifier.py. \<open>py_int\<close> is Python's \<open>int\<close> on a string, None when
  it raises ValueError; \<open>int(os.getenv("EMAIL_PORT", 587))\<close> is the only statement of the
  start-up that can raise.
\<close>

definition notifier_startup ::
    "(string \<Rightarrow> int option) \<Rightarrow> (string \<rightharpoonup> string) \<Rightarrow> py_error + notifier_config" where
  "notifier_startup py_int environ =
     (case (case environ ''EMAIL_PORT'' of None \<Rightarrow> Some 587 | Some s \<Rightarrow> py_int s) of
        None \<Rightarrow> Inl ValueError
      | Some port \<Rightarrow>
          Inr \<lparr>whoisxml_api_key = environ ''WHOISXML_API_KEY'',
               db_host = environ ''DB_HOST'',
               db_user = environ ''DB_USER'',
               db_password = environ ''DB_PASSWORD'',
               db_name = environ ''DB_NAME'',
               email_host = environ ''EMAIL_HOST'',
               email_port = port,
               email_user = environ ''EMAIL_USER'',
               email_password = environ ''EMAIL_PASSWORD''\<rparr>)"

text \<open>
  notifier.py as a program: the start-up, then the main loop for as many cycles as
  environments are given.
\<close>

definition notifier_main ::
    "(string \<Rightarrow> int option) \<Rightarrow> (string \<rightharpoonup> string) \<Rightarrow> cycle_env list \<Rightarrow> world
      \<Rightarrow> py_error option \<times> world" where
  "notifier_main py_int environ envs w =
     (case notifier_startup py_int environ of
        Inl e \<Rightarrow> (Some e, w)
      | Inr cfg \<Rightarrow> notifier_main_loop envs w)"

text \<open>The durations of the sleeps in a journal, in seconds.\<close>

fun sleeps :: "event list \<Rightarrow> nat list" where
  "sleeps [] = []"
| "sleeps (Slept n # evs) = n # sleeps evs"
| "sleeps (e # evs) = sleeps evs"

section \<open>A table and an environment to run the poller on\<close>

text \<open>
  Two pending rows. Both domains are reported available; the mail to the first row is
  refused, the mail to the second is delivered; the database accepts every statement.
\<close>

definition example_rows :: "notification list" where
  "example_rows =
     [\<lparr>row_id = 1, domain_name = ''example.com'', email = ''user@test.com'', notified = False,
        created_at = 100, last_checked_at = None\<rparr>,
      \<lparr>row_id = 2, domain_name = ''example.io'', email = ''other@test.com'', notified = False,
        created_at = 101, last_checked_at = None\<rparr>]"

definition example_env :: cycle_env where
  "example_env =
     \<lparr>db_connect_ok = True, db_select_ok = True,
      whois = (\<lambda>i d. status_response ''AVAILABLE''),
      smtp = (\<lambda>i to_email d. if i = 1 then Some SMTPException else None),
      db_update_ok = (\<lambda>i. True), db_commit_ok = (\<lambda>i. True)\<rparr>"

definition example_world :: world where
  "example_world = \<lparr>table = example_rows, journal = []\<rparr>"

section \<open>Requests to run the /notify route on\<close>

definition example_request :: "(string \<times> json) list" where
  "example_request = [(''domain'', JStr ''example.com''), (''email'', JStr ''user@test.com'')]"

definition bad_email_request :: "(string \<times> json) list" where
  "bad_email_request = [(''domain'', JStr ''example.com''), (''email'', JStr ''not-an-email'')]"

definition db_accepts :: insert_env where
  "db_accepts = \<lparr>ins_connect_ok = True, ins_execute_ok = True, ins_commit_ok = True\<rparr>"

definition db_refuses_commit :: insert_env where
  "db_refuses_commit = \<lparr>ins_connect_ok = True, ins_execute_ok = True, ins_commit_ok = False\<rparr>"

definition empty_store :: store where
  "empty_store = \<lparr>rows = [], next_id = 1\<rparr>"

section \<open>Choices to run the generator on\<close>

text \<open>The set is listed from its last element to its first; every TLD drawn is the first.\<close>

definition reversed_order :: chooser where
  "reversed_order = \<lparr>extra_suffix_pick = 3, set_order = rev [0..<30], tld_pick = (\<lambda>i. 0)\<rparr>"

section \<open>The availability checkers: the claims\<close>

lemma py_isspace_lower_fixed: "py_isspace c \<Longrightarrow> py_lower_char c = c"
  by (auto simp: py_isspace_def py_lower_char_def Let_def)

lemma dropWhile_keeps: "xs \<noteq> [] \<Longrightarrow> \<not> P (hd xs) \<Longrightarrow> dropWhile P xs = xs"
  by (cases xs) auto

lemma py_strip_id:
  assumes "s \<noteq> []" "\<not> py_isspace (hd s)" "\<not> py_isspace (last s)"
  shows "py_strip s = s"
proof -
  have 1: "dropWhile py_isspace s = s"
    using assms(1,2) by (rule dropWhile_keeps)
  have "rev s \<noteq> []" "\<not> py_isspace (hd (rev s))"
    using assms(1,3) by (simp_all add: hd_rev)
  then have 2: "dropWhile py_isspace (rev s) = rev s"
    by (rule dropWhile_keeps)
  show ?thesis by (simp add: py_strip_def 1 2)
qed

lemma py_lower_AVAILABLE: "py_lower ''AVAILABLE'' = ''available''"
  by code_simp

lemma not_space_a: "\<not> py_isspace CHR ''a''"
  by code_simp

lemma not_space_e: "\<not> py_isspace CHR ''e''"
  by code_simp

lemma any_case_available_strip:
  assumes "equals_ignoring_case s ''AVAILABLE''"
  shows "py_strip s = s"
proof -
  have low: "map py_lower_char s = ''available''"
    using assms by (simp add: equals_ignoring_case_def py_lower_AVAILABLE) (simp add: py_lower_def)
  then have ne: "s \<noteq> []" by auto
  have "hd (map py_lower_char s) = CHR ''a''" "last (map py_lower_char s) = CHR ''e''"
    using low by simp_all
  then have h: "py_lower_char (hd s) = CHR ''a''" "py_lower_char (last s) = CHR ''e''"
    using ne by (simp_all add: hd_map last_map)
  have "\<not> py_isspace (hd s)"
    using h(1) py_isspace_lower_fixed [of "hd s"] not_space_a by auto
  moreover have "\<not> py_isspace (last s)"
    using h(2) py_isspace_lower_fixed [of "last s"] not_space_e by auto
  ultimately show ?thesis using ne by (simp add: py_strip_id)
qed

lemma app_check_on_status:
  assumes "net d = JsonBody (JObj kvs)" "map_of kvs ''DomainInfo'' = Some (JObj info)"
      "map_of info ''domainAvailability'' = Some (JStr s)"
  shows "app_check_domain_availability net d = Inr (py_lower (py_strip s) = ''available'')"
  using assms
  by (simp add: app_check_domain_availability_def app_check_try_def fetch_json_def
      domain_availability_field_def py_get_def strip_lower_def)

lemma notifier_check_on_status:
  assumes "net d = JsonBody (JObj kvs)" "map_of kvs ''DomainInfo'' = Some (JObj info)"
      "map_of info ''domainAvailability'' = Some (JStr s)"
  shows "notifier_check_domain_availability net d = Inr (s = ''AVAILABLE'')"
  using assms
  by (simp add: notifier_check_domain_availability_def notifier_check_try_def fetch_json_def
      domain_availability_field_def py_get_def)

lemma checks_on_timeout:
  "net d = Timeout \<Longrightarrow> app_check_domain_availability net d = Inr False"
  "net d = Timeout \<Longrightarrow> notifier_check_domain_availability net d = Inr False"
  by (simp_all add: app_check_domain_availability_def app_check_try_def
      notifier_check_domain_availability_def notifier_check_try_def fetch_json_def)

lemma status_response_shape:
  "status_response s = JsonBody (JObj [(''DomainInfo'', JObj [(''domainAvailability'', JStr s)])])
   \<and> map_of [(''DomainInfo'', JObj [(''domainAvailability'', JStr s)])] ''DomainInfo''
       = Some (JObj [(''domainAvailability'', JStr s)])
   \<and> map_of [(''domainAvailability'', JStr s)] ''domainAvailability'' = Some (JStr s)"
  by (simp add: status_response_def)

lemma any_case_example: "equals_ignoring_case ''Available'' ''AVAILABLE''"
  by code_simp

lemma other_status_example: "\<not> equals_ignoring_case ''UNAVAILABLE'' ''AVAILABLE''"
  by code_simp

lemma stripped_example: "py_lower (py_strip ''Available'') = ''available''"
  by code_simp

text \<open>
  Claim C2, as amended. Both checkers return a bool: True is the spec's Available, and
  False stands for both Unavailable and Unknown. On a timeout both return False. On a
  response whose status field is the string \<open>s\<close>:
  \<^item> the checker of app.py returns True exactly when \<open>s\<close>, stripped of surrounding
    whitespace and lowercased, is \<open>available\<close>; so it returns True for \<open>AVAILABLE\<close> in
    any letter case;
  \<^item> the checker of notifier.py returns True for \<open>AVAILABLE\<close> itself, and False for
    every status that is not \<open>AVAILABLE\<close> in some letter case.
\<close>

theorem availability_by_status:
  "(net d = Timeout \<longrightarrow>
      app_check_domain_availability net d = Inr False
      \<and> notifier_check_domain_availability net d = Inr False)
   \<and> (net d = JsonBody (JObj kvs) \<and> map_of kvs ''DomainInfo'' = Some (JObj info)
        \<and> map_of info ''domainAvailability'' = Some (JStr s) \<longrightarrow>
      app_check_domain_availability net d = Inr (py_lower (py_strip s) = ''available'')
      \<and> (equals_ignoring_case s ''AVAILABLE'' \<longrightarrow> app_check_domain_availability net d = Inr True)
      \<and> (s = ''AVAILABLE'' \<longrightarrow> notifier_check_domain_availability net d = Inr True)
      \<and> (\<not> equals_ignoring_case s ''AVAILABLE'' \<longrightarrow>
            notifier_check_domain_availability net d = Inr False))"
proof (intro conjI impI)
  assume "net d = Timeout"
  then show "app_check_domain_availability net d = Inr False"
    and "notifier_check_domain_availability net d = Inr False"
    by (simp_all add: checks_on_timeout)
next
  assume h: "net d = JsonBody (JObj kvs) \<and> map_of kvs ''DomainInfo'' = Some (JObj info)
        \<and> map_of info ''domainAvailability'' = Some (JStr s)"
  then show app: "app_check_domain_availability net d = Inr (py_lower (py_strip s) = ''available'')"
    using app_check_on_status by blast
  have nt: "notifier_check_domain_availability net d = Inr (s = ''AVAILABLE'')"
    using h notifier_check_on_status by blast
  {
    assume "equals_ignoring_case s ''AVAILABLE''"
    then have "py_strip s = s" "py_lower s = ''available''"
      by (simp_all add: any_case_available_strip equals_ignoring_case_def py_lower_AVAILABLE)
    then show "app_check_domain_availability net d = Inr True"
      using app by simp
  }
  {
    assume "s = ''AVAILABLE''"
    then show "notifier_check_domain_availability net d = Inr True"
      using nt by simp
  }
  {
    assume "\<not> equals_ignoring_case s ''AVAILABLE''"
    then have "s \<noteq> ''AVAILABLE''"
      by (auto simp: equals_ignoring_case_def)
    then show "notifier_check_domain_availability net d = Inr False"
      using nt by simp
  }
qed

theorem availability_by_status_witness:
  "app_check_domain_availability (\<lambda>d. Timeout) ''example.com'' = Inr False
   \<and> notifier_check_domain_availability (\<lambda>d. Timeout) ''example.com'' = Inr False
   \<and> app_check_domain_availability (\<lambda>d. status_response ''Available'') ''example.com'' = Inr True
   \<and> notifier_check_domain_availability (\<lambda>d. status_response ''AVAILABLE'') ''example.com'' = Inr True
   \<and> notifier_check_domain_availability (\<lambda>d. status_response ''UNAVAILABLE'') ''example.com'' = Inr False"
proof -
  have t: "app_check_domain_availability (\<lambda>d. Timeout) ''example.com'' = Inr False
      \<and> notifier_check_domain_availability (\<lambda>d. Timeout) ''example.com'' = Inr False"
    using availability_by_status [of "\<lambda>d. Timeout" "''example.com''"] by simp
  have a: "app_check_domain_availability (\<lambda>d. status_response ''Available'') ''example.com'' = Inr True"
    using availability_by_status [of "\<lambda>d. status_response ''Available''" "''example.com''"
      "[(''DomainInfo'', JObj [(''domainAvailability'', JStr ''Available'')])]"
      "[(''domainAvailability'', JStr ''Available'')]" "''Available''"]
      any_case_example stripped_example
    by (simp add: status_response_def)
  have b: "notifier_check_domain_availability (\<lambda>d. status_response ''AVAILABLE'') ''example.com'' = Inr True"
    using availability_by_status [of "\<lambda>d. status_response ''AVAILABLE''" "''example.com''"
      "[(''DomainInfo'', JObj [(''domainAvailability'', JStr ''AVAILABLE'')])]"
      "[(''domainAvailability'', JStr ''AVAILABLE'')]" "''AVAILABLE''"]
    by (simp add: status_response_def)
  have c: "notifier_check_domain_availability (\<lambda>d. status_response ''UNAVAILABLE'') ''example.com'' = Inr False"
    using availability_by_status [of "\<lambda>d. status_response ''UNAVAILABLE''" "''example.com''"
      "[(''DomainInfo'', JObj [(''domainAvailability'', JStr ''UNAVAILABLE'')])]"
      "[(''domainAvailability'', JStr ''UNAVAILABLE'')]" "''UNAVAILABLE''"] other_status_example
    by (simp add: status_response_def)
  show ?thesis using t a b c by simp
qed

text \<open>
  The claim as it is written fails on app.py: a status other than \<open>AVAILABLE\<close> in some
  letter case, here \<open>AVAILABLE\<close> followed by a space, is answered True.
\<close>

theorem availability_by_status_counterexample:
  "\<not> equals_ignoring_case ''AVAILABLE '' ''AVAILABLE''
   \<and> app_check_domain_availability (\<lambda>d. status_response ''AVAILABLE '') ''example.com'' = Inr True"
  by code_simp

text \<open>
  The checker of notifier.py compares the status with \<open>AVAILABLE\<close> as it is: for the
  lowercase status it returns False, where the checker of app.py returns True.
\<close>

lemma notifier_lowercase_status:
  "equals_ignoring_case ''available'' ''AVAILABLE''
   \<and> notifier_check_domain_availability (\<lambda>d. status_response ''available'') ''example.com'' = Inr False"
  by code_simp

text \<open>
  Claim C7. Neither checker lets an exception out: whatever the upstream does, each
  returns a bool, and whenever the body of its \<open>try\<close> block raises (a timeout, a network
  failure, a body that is not JSON, a JSON value of the wrong shape) it returns False.
\<close>

theorem availability_check_never_raises:
  "(\<exists>b. app_check_domain_availability net d = Inr b)
   \<and> (\<exists>b. notifier_check_domain_availability net d = Inr b)
   \<and> (\<forall>e. app_check_try (net d) = Inl e \<longrightarrow> app_check_domain_availability net d = Inr False)
   \<and> (\<forall>e. notifier_check_try (net d) = Inl e \<longrightarrow>
          notifier_check_domain_availability net d = Inr False)
   \<and> (net d = Timeout \<or> net d = NetworkError \<or> net d = MalformedBody \<longrightarrow>
          app_check_domain_availability net d = Inr False
          \<and> notifier_check_domain_availability net d = Inr False)"
proof (intro conjI allI impI)
  show "\<exists>b. app_check_domain_availability net d = Inr b"
    by (cases "app_check_try (net d)") (auto simp: app_check_domain_availability_def)
  show "\<exists>b. notifier_check_domain_availability net d = Inr b"
    by (cases "notifier_check_try (net d)") (auto simp: notifier_check_domain_availability_def)
next
  fix e assume "app_check_try (net d) = Inl e"
  then show "app_check_domain_availability net d = Inr False"
    by (simp add: app_check_domain_availability_def)
next
  fix e assume "notifier_check_try (net d) = Inl e"
  then show "notifier_check_domain_availability net d = Inr False"
    by (simp add: notifier_check_domain_availability_def)
next
  assume "net d = Timeout \<or> net d = NetworkError \<or> net d = MalformedBody"
  then show "app_check_domain_availability net d = Inr False"
    and "notifier_check_domain_availability net d = Inr False"
    by (auto simp: app_check_domain_availability_def app_check_try_def
      notifier_check_domain_availability_def notifier_check_try_def fetch_json_def)
qed

theorem availability_check_never_raises_witness:
  "app_check_try (JsonBody (JArr [])) = Inl AttributeError
   \<and> app_check_domain_availability (\<lambda>d. JsonBody (JArr [])) ''example.com'' = Inr False
   \<and> notifier_check_try MalformedBody = Inl JSONDecodeError
   \<and> notifier_check_domain_availability (\<lambda>d. MalformedBody) ''example.com'' = Inr False"
proof -
  have 1: "app_check_try (JsonBody (JArr [])) = Inl AttributeError"
    by (simp add: app_check_try_def fetch_json_def domain_availability_field_def py_get_def)
  have 2: "notifier_check_try MalformedBody = Inl JSONDecodeError"
    by (simp add: notifier_check_try_def fetch_json_def)
  have 3: "app_check_domain_availability (\<lambda>d. JsonBody (JArr [])) ''example.com'' = Inr False"
    using availability_check_never_raises [of "\<lambda>d. JsonBody (JArr [])" "''example.com''"] 1
    by simp
  have 4: "notifier_check_domain_availability (\<lambda>d. MalformedBody) ''example.com'' = Inr False"
    using availability_check_never_raises [of "\<lambda>d. MalformedBody" "''example.com''"] 2
    by simp
  show ?thesis using 1 2 3 4 by simp
qed

section \<open>The poller: what one cycle does to the table and the journal\<close>

lemma notifier_check_total:
  "notifier_check_domain_availability net d = Inr (notifier_check_try (net d) = Inr True)"
  by (cases "notifier_check_try (net d)") (auto simp: notifier_check_domain_availability_def)

lemma app_check_total:
  "app_check_domain_availability net d = Inr (app_check_try (net d) = Inr True)"
  by (cases "app_check_try (net d)") (auto simp: app_check_domain_availability_def)

lemma notify_record_fst:
  "fst (notify_record env r w) =
     (if row_succeeds env r \<and> \<not> row_persists env r then Some OperationalError else None)"
  by (simp add: notify_record_def notifier_check_total row_succeeds_def row_persists_def Let_def)

lemma notify_record_table:
  "table (snd (notify_record env r w)) =
     (if row_succeeds env r \<and> row_persists env r then sql_set_notified (row_id r) (table w) else table w)"
  by (simp add: notify_record_def notifier_check_total row_succeeds_def row_persists_def Let_def)

lemma notify_record_journal:
  "\<exists>evs. journal (snd (notify_record env r w)) = journal w @ evs
       \<and> (\<forall>e \<in> set evs. event_row e = Some (row_id r))"
  by (simp add: notify_record_def notifier_check_total Let_def)

lemma set_notified_where_empty: "set_notified_where {} t = t"
  by (simp add: set_notified_where_def)

lemma set_notified_where_insert:
  "set_notified_where S (sql_set_notified i t) = set_notified_where (insert i S) t"
  by (auto simp: set_notified_where_def sql_set_notified_def)

lemma notify_records_table:
  "table (snd (notify_records env rs w)) = set_notified_where (set (marked_ids env rs)) (table w)"
proof (induction rs arbitrary: w)
  case Nil
  show ?case by (simp add: set_notified_where_empty)
next
  case (Cons r rs)
  obtain res w1 where step: "notify_record env r w = (res, w1)"
    by (cases "notify_record env r w")
  have res: "res = (if row_succeeds env r \<and> \<not> row_persists env r then Some OperationalError else None)"
    using notify_record_fst [of env r w] step by simp
  have tab: "table w1 =
      (if row_succeeds env r \<and> row_persists env r then sql_set_notified (row_id r) (table w) else table w)"
    using notify_record_table [of env r w] step by simp
  show ?case
  proof (cases "row_succeeds env r \<and> \<not> row_persists env r")
    case True
    then show ?thesis using step res tab by (simp add: set_notified_where_empty)
  next
    case False
    then have "res = None" using res by simp
    then have "notify_records env (r # rs) w = notify_records env rs w1"
      using step by simp
    then show ?thesis
      using False tab Cons.IH [of w1] by (auto simp: set_notified_where_insert)
  qed
qed

lemma notify_records_journal:
  "\<exists>evs. journal (snd (notify_records env rs w)) = journal w @ evs
       \<and> (\<forall>e \<in> set evs. \<exists>r \<in> set rs. event_row e = Some (row_id r))"
proof (induction rs arbitrary: w)
  case Nil
  show ?case by simp
next
  case (Cons r rs)
  obtain res w1 where step: "notify_record env r w = (res, w1)"
    by (cases "notify_record env r w")
  obtain evs1 where e1: "journal w1 = journal w @ evs1" "\<forall>e \<in> set evs1. event_row e = Some (row_id r)"
    using notify_record_journal [of env r w] step by auto
  show ?case
  proof (cases res)
    case (Some e)
    then show ?thesis using step e1 by auto
  next
    case None
    obtain evs2 where e2: "journal (snd (notify_records env rs w1)) = journal w1 @ evs2"
        "\<forall>e \<in> set evs2. \<exists>r \<in> set rs. event_row e = Some (row_id r)"
      using Cons.IH [of w1] by auto
    have "journal (snd (notify_records env (r # rs) w)) = journal w @ (evs1 @ evs2)"
      using step None e1 e2 by simp
    moreover have "\<forall>e \<in> set (evs1 @ evs2). \<exists>r' \<in> set (r # rs). event_row e = Some (row_id r')"
      using e1 e2 by auto
    ultimately show ?thesis by blast
  qed
qed

lemma notify_records_fst:
  "list_all (row_persists env) rs \<Longrightarrow> fst (notify_records env rs w) = None"
proof (induction rs arbitrary: w)
  case Nil
  show ?case by simp
next
  case (Cons r rs)
  obtain res w1 where step: "notify_record env r w = (res, w1)"
    by (cases "notify_record env r w")
  have "res = None" using notify_record_fst [of env r w] step Cons.prems by simp
  then show ?case using step Cons by simp
qed

lemma marked_ids_subset:
  "set (marked_ids env rs) \<subseteq> row_id ` {r \<in> set rs. row_succeeds env r}"
  by (induction rs) auto

lemma marked_ids_reliable:
  "list_all (row_persists env) rs \<Longrightarrow> set (marked_ids env rs) = row_id ` {r \<in> set rs. row_succeeds env r}"
  by (induction rs) auto

lemma check_and_notify_table:
  "table (snd (check_and_notify env w)) =
     set_notified_where
       (if db_connect_ok env \<and> db_select_ok env then set (marked_ids env (pending_rows (table w))) else {})
       (table w)"
  by (simp add: check_and_notify_def Let_def notify_records_table set_notified_where_empty)

lemma check_and_notify_journal:
  "\<exists>evs. journal (snd (check_and_notify env w)) = journal w @ evs
       \<and> (\<forall>e \<in> set evs. \<exists>r \<in> set (pending_rows (table w)). event_row e = Some (row_id r))"
  using notify_records_journal [of env "pending_rows (table w)" w]
  by (auto simp: check_and_notify_def Let_def)

lemma row_id_inj:
  "distinct (map row_id t) \<Longrightarrow> r \<in> set t \<Longrightarrow> a \<in> set t \<Longrightarrow> row_id r = row_id a \<Longrightarrow> r = a"
  by (auto simp: distinct_map inj_on_def)

lemma pending_rows_set: "set (pending_rows t) = {r \<in> set t. \<not> notified r}"
  by (auto simp: pending_rows_def)

lemma notified_not_pending: "notified a \<Longrightarrow> a \<notin> set (pending_rows t)"
  by (simp add: pending_rows_set)

lemma cycle_marks_subset:
  "(if db_connect_ok env \<and> db_select_ok env then set (marked_ids env (pending_rows t)) else {})
     \<subseteq> row_id ` {r \<in> set t. \<not> notified r \<and> row_succeeds env r}"
  using marked_ids_subset [of env "pending_rows t"] by (auto simp: pending_rows_set)

lemma cycle_marks_reliable:
  assumes "db_reliable env t"
  shows "(if db_connect_ok env \<and> db_select_ok env then set (marked_ids env (pending_rows t)) else {})
     = row_id ` {r \<in> set t. \<not> notified r \<and> row_succeeds env r}"
proof -
  have "list_all (row_persists env) (pending_rows t)"
    using assms by (auto simp: db_reliable_def pending_rows_def list_all_iff)
  then show ?thesis
    using assms marked_ids_reliable [of env "pending_rows t"]
    by (auto simp: db_reliable_def pending_rows_set)
qed

lemma set_notified_where_rel:
  assumes "S \<subseteq> row_id ` {r \<in> set t. P r}"
  shows "list_all2 (\<lambda>a b. b = a \<or> (b = a\<lparr>notified := True\<rparr> \<and> (\<exists>r \<in> set t. P r \<and> row_id r = row_id a)))
           t (set_notified_where S t)"
proof -
  have "\<And>x :: notification. row_id x \<in> S \<Longrightarrow> \<exists>r \<in> set t. P r \<and> row_id r = row_id x"
  proof -
    fix x :: notification
    assume "row_id x \<in> S"
    then have "row_id x \<in> row_id ` {r \<in> set t. P r}" using assms by blast
    then obtain r where "r \<in> set t" "P r" "row_id x = row_id r" by blast
    then show "\<exists>r \<in> set t. P r \<and> row_id r = row_id x" by (intro bexI [of _ r]) simp_all
  qed
  then show ?thesis
    by (auto simp: set_notified_where_def list_all2_map2 intro!: list_all2_refl)
qed

lemma check_and_notify_rel:
  "list_all2 (\<lambda>a b. b = a \<or> (b = a\<lparr>notified := True\<rparr>
        \<and> (\<exists>r \<in> set (table w). (\<not> notified r \<and> row_succeeds env r) \<and> row_id r = row_id a)))
     (table w) (table (snd (check_and_notify env w)))"
  unfolding check_and_notify_table
  by (rule set_notified_where_rel) (rule cycle_marks_subset)

lemma check_and_notify_rel_distinct:
  assumes "distinct (map row_id (table w))"
  shows "list_all2 (\<lambda>a b. b = a \<or> (b = a\<lparr>notified := True\<rparr> \<and> \<not> notified a \<and> row_succeeds env a))
     (table w) (table (snd (check_and_notify env w)))"
proof -
  have "list_all2 (\<lambda>a b. a \<in> set (table w) \<and> (b = a \<or> (b = a\<lparr>notified := True\<rparr>
        \<and> (\<exists>r \<in> set (table w). (\<not> notified r \<and> row_succeeds env r) \<and> row_id r = row_id a))))
     (table w) (table (snd (check_and_notify env w)))"
    using check_and_notify_rel [of w env]
    by (auto simp: list_all2_conv_all_nth)
  then show ?thesis
  proof (rule list_all2_mono)
    fix a b
    assume h: "a \<in> set (table w) \<and> (b = a \<or> (b = a\<lparr>notified := True\<rparr>
        \<and> (\<exists>r \<in> set (table w). (\<not> notified r \<and> row_succeeds env r) \<and> row_id r = row_id a)))"
    show "b = a \<or> (b = a\<lparr>notified := True\<rparr> \<and> \<not> notified a \<and> row_succeeds env a)"
    proof (cases "b = a")
      case True
      then show ?thesis by simp
    next
      case False
      then obtain r where r: "b = a\<lparr>notified := True\<rparr>" "r \<in> set (table w)" "\<not> notified r"
          "row_succeeds env r" "row_id r = row_id a"
        using h by auto
      have "r = a" using row_id_inj [OF assms r(2) _ r(5)] h by simp
      then show ?thesis using r by simp
    qed
  qed
qed

lemma check_and_notify_reliable:
  assumes "db_reliable env (table w)" and "distinct (map row_id (table w))"
  shows "table (snd (check_and_notify env w)) =
           map (\<lambda>a. a\<lparr>notified := (notified a \<or> row_succeeds env a)\<rparr>) (table w)"
proof -
  let ?S = "row_id ` {r \<in> set (table w). \<not> notified r \<and> row_succeeds env r}"
  have tab: "table (snd (check_and_notify env w)) = set_notified_where ?S (table w)"
    using check_and_notify_table [of env w] cycle_marks_reliable [OF assms(1)] by simp
  have "\<And>a. a \<in> set (table w) \<Longrightarrow>
      (if row_id a \<in> ?S then a\<lparr>notified := True\<rparr> else a) = a\<lparr>notified := (notified a \<or> row_succeeds env a)\<rparr>"
  proof -
    fix a assume a: "a \<in> set (table w)"
    have "row_id a \<in> ?S \<longleftrightarrow> \<not> notified a \<and> row_succeeds env a"
      using row_id_inj [OF assms(2) _ a] a by auto
    then show "(if row_id a \<in> ?S then a\<lparr>notified := True\<rparr> else a) = a\<lparr>notified := (notified a \<or> row_succeeds env a)\<rparr>"
      by (cases "notified a") auto
  qed
  then show ?thesis unfolding tab set_notified_where_def by simp
qed

lemma check_and_notify_fst_reliable:
  assumes "db_reliable env (table w)"
  shows "fst (check_and_notify env w) = None"
proof -
  have "list_all (row_persists env) (pending_rows (table w))"
    using assms by (auto simp: db_reliable_def pending_rows_def list_all_iff)
  then show ?thesis
    using assms notify_records_fst [of env "pending_rows (table w)" w]
    by (simp add: check_and_notify_def db_reliable_def Let_def)
qed

lemma check_and_notify_ids:
  "map row_id (table (snd (check_and_notify env w))) = map row_id (table w)"
  by (simp add: check_and_notify_table set_notified_where_def)

lemma check_and_notify_keeps_notified:
  "list_all2 (\<lambda>a b. notified a \<longrightarrow> b = a) (table w) (table (snd (check_and_notify env w)))"
  using check_and_notify_rel [of w env]
  by (rule list_all2_mono) auto

lemma main_loop_keeps_notified:
  "list_all2 (\<lambda>a b. notified a \<longrightarrow> b = a) (table w) (table (snd (notifier_main_loop envs w)))"
proof (induction envs arbitrary: w)
  case Nil
  show ?case by (simp add: list_all2_refl)
next
  case (Cons env envs)
  obtain res w1 where step: "check_and_notify env w = (res, w1)"
    by (cases "check_and_notify env w")
  have one: "list_all2 (\<lambda>a b. notified a \<longrightarrow> b = a) (table w) (table w1)"
    using check_and_notify_keeps_notified [of w env] step by simp
  show ?case
  proof (cases res)
    case (Some e)
    then show ?thesis using step one by simp
  next
    case None
    let ?w2 = "w1\<lparr>journal := journal w1 @ [Slept 30]\<rparr>"
    have rest: "list_all2 (\<lambda>a b. notified a \<longrightarrow> b = a) (table w1) (table (snd (notifier_main_loop envs ?w2)))"
      using Cons.IH [of ?w2] by simp
    have "list_all2 (\<lambda>a b. notified a \<longrightarrow> b = a) (table w) (table (snd (notifier_main_loop envs ?w2)))"
      using one rest by (rule list_all2_trans [rotated]) auto
    then show ?thesis using step None by simp
  qed
qed

section \<open>The poller: the claims\<close>

lemma no_events_for_notified:
  assumes "distinct (map row_id (table w))"
  shows "\<exists>evs. journal (snd (check_and_notify env w)) = journal w @ evs
       \<and> (\<forall>a \<in> set (table w). notified a \<longrightarrow> (\<forall>e \<in> set evs. event_row e \<noteq> Some (row_id a)))"
proof -
  obtain evs where evs: "journal (snd (check_and_notify env w)) = journal w @ evs"
      "\<forall>e \<in> set evs. \<exists>r \<in> set (pending_rows (table w)). event_row e = Some (row_id r)"
    using check_and_notify_journal [of env w] by blast
  have "\<forall>a \<in> set (table w). notified a \<longrightarrow> (\<forall>e \<in> set evs. event_row e \<noteq> Some (row_id a))"
  proof (intro ballI impI notI)
    fix a e
    assume a: "a \<in> set (table w)" "notified a" and e: "e \<in> set evs" "event_row e = Some (row_id a)"
    obtain r where r: "r \<in> set (pending_rows (table w))" "event_row e = Some (row_id r)"
      using evs(2) e(1) by blast
    then have "r \<in> set (table w)" "\<not> notified r" "row_id r = row_id a"
      using e(2) by (auto simp: pending_rows_set)
    then have "r = a" using row_id_inj [OF assms _ a(1)] by blast
    then show False using \<open>\<not> notified r\<close> a(2) by simp
  qed
  then show ?thesis using evs(1) by blast
qed

lemma keeps_notified_mem:
  assumes "a \<in> set (table w)" "notified a"
  shows "a \<in> set (table (snd (check_and_notify env w)))"
proof -
  obtain i where i: "i < length (table w)" "table w ! i = a"
    using assms(1) by (auto simp: in_set_conv_nth)
  have "list_all2 (\<lambda>a b. notified a \<longrightarrow> b = a) (table w) (table (snd (check_and_notify env w)))"
    by (rule check_and_notify_keeps_notified)
  then have "length (table (snd (check_and_notify env w))) = length (table w)"
      "table (snd (check_and_notify env w)) ! i = a"
    using i assms(2) by (auto simp: list_all2_conv_all_nth)
  then show ?thesis using i(1) by (metis nth_mem)
qed

lemma example_distinct: "distinct (map row_id (table example_world))"
  by (simp add: example_world_def example_rows_def)

lemma example_reliable: "db_reliable example_env (table example_world)"
  by (simp add: example_world_def example_rows_def example_env_def db_reliable_def row_persists_def)

lemma example_row1_fails:
  "\<not> send_email_notification (smtp example_env (row_id (example_rows ! 0))) (email (example_rows ! 0)) (domain_name (example_rows ! 0))"
  by (simp add: example_rows_def example_env_def send_email_notification_def)

lemma example_row2_succeeds: "row_succeeds example_env (example_rows ! 1)"
  by (simp add: example_rows_def example_env_def row_succeeds_def send_email_notification_def
      notifier_check_domain_availability_def notifier_check_try_def fetch_json_def status_response_def
      domain_availability_field_def py_get_def)

text \<open>
  Claim C1. The poller sets \<open>notified\<close> of a row from false to true at most once, and
  only in a cycle in which the check of the row's domain said available and the mail to the
  row's address was sent; a notified row is not selected again, so a later cycle does
  nothing for it. In the model:
  \<^item> whatever the number of cycles the main loop runs, a row that is notified is left
    exactly as it is: there is no way back to false, hence at most one change to true;
  \<^item> in one cycle, with ids distinct (the primary key), a row that goes from false to
    true is one whose check returned True and whose mail was sent in this cycle;
  \<^item> a notified row is not among the pending rows, and with distinct ids no event of
    the cycle (check, send attempt, update) is about it;
  \<^item> a pending row whose check and mail succeed, with a database that accepts the writes,
    is notified after the cycle, and whatever the next cycle's environment \<open>env2\<close> is,
    that cycle leaves it notified and has no event about it.
\<close>

theorem notified_set_at_most_once:
  "list_all2 (\<lambda>a b. notified a \<longrightarrow> b = a) (table w) (table (snd (notifier_main_loop envs w)))
   \<and> (distinct (map row_id (table w)) \<longrightarrow>
        list_all2 (\<lambda>a b. \<not> notified a \<and> notified b \<longrightarrow>
                     notifier_check_domain_availability (whois env (row_id a)) (domain_name a) = Inr True
                     \<and> send_email_notification (smtp env (row_id a)) (email a) (domain_name a))
          (table w) (table (snd (check_and_notify env w))))
   \<and> (\<forall>a \<in> set (table w). notified a \<longrightarrow> a \<notin> set (pending_rows (table w)))
   \<and> (distinct (map row_id (table w)) \<longrightarrow>
        (\<exists>evs. journal (snd (check_and_notify env w)) = journal w @ evs
           \<and> (\<forall>a \<in> set (table w). notified a \<longrightarrow> (\<forall>e \<in> set evs. event_row e \<noteq> Some (row_id a)))))
   \<and> (distinct (map row_id (table w)) \<and> db_reliable env (table w)
        \<and> a \<in> set (table w) \<and> \<not> notified a \<and> row_succeeds env a \<longrightarrow>
        a\<lparr>notified := True\<rparr> \<in> set (table (snd (check_and_notify env w)))
        \<and> a\<lparr>notified := True\<rparr> \<in> set (table (snd (check_and_notify env2 (snd (check_and_notify env w)))))
        \<and> (\<exists>evs. journal (snd (check_and_notify env2 (snd (check_and_notify env w))))
                    = journal (snd (check_and_notify env w)) @ evs
              \<and> (\<forall>e \<in> set evs. event_row e \<noteq> Some (row_id a))))"
proof (intro conjI impI)
  show "list_all2 (\<lambda>a b. notified a \<longrightarrow> b = a) (table w) (table (snd (notifier_main_loop envs w)))"
    by (rule main_loop_keeps_notified)
next
  assume d: "distinct (map row_id (table w))"
  show "list_all2 (\<lambda>a b. \<not> notified a \<and> notified b \<longrightarrow>
                     notifier_check_domain_availability (whois env (row_id a)) (domain_name a) = Inr True
                     \<and> send_email_notification (smtp env (row_id a)) (email a) (domain_name a))
          (table w) (table (snd (check_and_notify env w)))"
    using check_and_notify_rel_distinct [OF d, of env]
    by (rule list_all2_mono) (auto simp: row_succeeds_def)
next
  show "\<forall>a \<in> set (table w). notified a \<longrightarrow> a \<notin> set (pending_rows (table w))"
    by (simp add: notified_not_pending)
next
  assume d: "distinct (map row_id (table w))"
  show "\<exists>evs. journal (snd (check_and_notify env w)) = journal w @ evs
           \<and> (\<forall>a \<in> set (table w). notified a \<longrightarrow> (\<forall>e \<in> set evs. event_row e \<noteq> Some (row_id a)))"
    by (rule no_events_for_notified [OF d])
next
  assume h: "distinct (map row_id (table w)) \<and> db_reliable env (table w)
        \<and> a \<in> set (table w) \<and> \<not> notified a \<and> row_succeeds env a"
  let ?w1 = "snd (check_and_notify env w)"
  have tab: "table ?w1 = map (\<lambda>a. a\<lparr>notified := (notified a \<or> row_succeeds env a)\<rparr>) (table w)"
    using h check_and_notify_reliable by blast
  have "(\<lambda>a. a\<lparr>notified := (notified a \<or> row_succeeds env a)\<rparr>) a \<in> set (table ?w1)"
    unfolding tab set_map using h by (intro imageI) simp
  then show in1: "a\<lparr>notified := True\<rparr> \<in> set (table ?w1)" using h by simp
  have n1: "notified (a\<lparr>notified := True\<rparr>)" by simp
  show "a\<lparr>notified := True\<rparr> \<in> set (table (snd (check_and_notify env2 ?w1)))"
    by (rule keeps_notified_mem [OF in1 n1])
  have d1: "distinct (map row_id (table ?w1))"
    using h by (simp add: check_and_notify_ids)
  obtain evs where evs: "journal (snd (check_and_notify env2 ?w1)) = journal ?w1 @ evs"
     "\<forall>x \<in> set (table ?w1). notified x \<longrightarrow> (\<forall>e \<in> set evs. event_row e \<noteq> Some (row_id x))"
    using no_events_for_notified [OF d1, of env2] by blast
  have "\<forall>e \<in> set evs. event_row e \<noteq> Some (row_id a)"
    using evs(2) in1 n1 by fastforce
  then show "\<exists>evs. journal (snd (check_and_notify env2 ?w1)) = journal ?w1 @ evs
              \<and> (\<forall>e \<in> set evs. event_row e \<noteq> Some (row_id a))"
    using evs(1) by blast
qed

theorem notified_set_at_most_once_witness:
  "distinct (map row_id (table example_world)) \<and> db_reliable example_env (table example_world)
   \<and> example_rows ! 1 \<in> set (table example_world) \<and> \<not> notified (example_rows ! 1)
   \<and> row_succeeds example_env (example_rows ! 1)
   \<and> (example_rows ! 1)\<lparr>notified := True\<rparr> \<in> set (table (snd (check_and_notify example_env example_world)))
   \<and> (example_rows ! 1)\<lparr>notified := True\<rparr>
        \<in> set (table (snd (check_and_notify example_env (snd (check_and_notify example_env example_world)))))"
proof -
  have h: "distinct (map row_id (table example_world)) \<and> db_reliable example_env (table example_world)
        \<and> example_rows ! 1 \<in> set (table example_world) \<and> \<not> notified (example_rows ! 1)
        \<and> row_succeeds example_env (example_rows ! 1)"
    using example_distinct example_reliable example_row2_succeeds
    by (simp add: example_world_def example_rows_def)
  show ?thesis
    using h notified_set_at_most_once [of example_world "[]" example_env "example_rows ! 1" example_env]
    by blast
qed

lemma failed_row_is_skipped:
  assumes "\<not> row_succeeds env r"
  shows "fst (notify_record env r w) = None"
    and "table (snd (notify_record env r w)) = table w"
    and "notify_records env (r # rs) w = notify_records env rs (snd (notify_record env r w))"
proof -
  show 1: "fst (notify_record env r w) = None"
    using assms by (simp add: notify_record_fst)
  show "table (snd (notify_record env r w)) = table w"
    using assms by (simp add: notify_record_table)
  show "notify_records env (r # rs) w = notify_records env rs (snd (notify_record env r w))"
    using 1 by (cases "notify_record env r w") simp
qed

text \<open>
  Claim C4. A failure of the check or of the mail for one row does not stop the cycle for
  the other rows: whatever the database does, the loop leaves such a row as it is, raises
  nothing and goes on with the rows that follow. With a database that accepts the writes
  and distinct ids, the cycle ends without an exception and every row ends notified
  exactly when it was notified before or its own check and mail succeeded, whatever
  happened to the other rows. In particular, for two pending rows where the mail to the
  first fails and the check and mail of the second succeed, the first row is unchanged
  and the second is notified.
\<close>

theorem poller_isolates_row_failures:
  "(\<not> row_succeeds env r \<longrightarrow>
      fst (notify_record env r w) = None
      \<and> table (snd (notify_record env r w)) = table w
      \<and> notify_records env (r # rs) w = notify_records env rs (snd (notify_record env r w)))
   \<and> (db_reliable env (table w) \<and> distinct (map row_id (table w)) \<longrightarrow>
        fst (check_and_notify env w) = None
        \<and> table (snd (check_and_notify env w))
            = map (\<lambda>a. a\<lparr>notified := (notified a \<or> row_succeeds env a)\<rparr>) (table w)
        \<and> (\<forall>r1 r2. table w = [r1, r2] \<and> \<not> notified r1 \<and> \<not> notified r2
              \<and> \<not> send_email_notification (smtp env (row_id r1)) (email r1) (domain_name r1)
              \<and> row_succeeds env r2
            \<longrightarrow> table (snd (check_and_notify env w)) = [r1, r2\<lparr>notified := True\<rparr>]))"
proof (intro conjI allI impI)
  assume f: "\<not> row_succeeds env r"
  show "fst (notify_record env r w) = None"
    and "table (snd (notify_record env r w)) = table w"
    and "notify_records env (r # rs) w = notify_records env rs (snd (notify_record env r w))"
    using failed_row_is_skipped [OF f] by simp_all
next
  assume ok: "db_reliable env (table w) \<and> distinct (map row_id (table w))"
  show "fst (check_and_notify env w) = None"
    using ok check_and_notify_fst_reliable by blast
  show tab: "table (snd (check_and_notify env w))
           = map (\<lambda>a. a\<lparr>notified := (notified a \<or> row_succeeds env a)\<rparr>) (table w)"
    using ok check_and_notify_reliable by blast
  fix r1 r2
  assume h: "table w = [r1, r2] \<and> \<not> notified r1 \<and> \<not> notified r2
             \<and> \<not> send_email_notification (smtp env (row_id r1)) (email r1) (domain_name r1)
             \<and> row_succeeds env r2"
  then have "\<not> row_succeeds env r1" by (simp add: row_succeeds_def)
  then show "table (snd (check_and_notify env w)) = [r1, r2\<lparr>notified := True\<rparr>]"
    unfolding tab using h by simp
qed

theorem poller_isolates_row_failures_witness:
  "db_reliable example_env (table example_world) \<and> distinct (map row_id (table example_world))
   \<and> \<not> row_succeeds example_env (example_rows ! 0)
   \<and> fst (notify_record example_env (example_rows ! 0) example_world) = None
   \<and> fst (check_and_notify example_env example_world) = None
   \<and> table (snd (check_and_notify example_env example_world))
       = [example_rows ! 0, (example_rows ! 1)\<lparr>notified := True\<rparr>]"
proof -
  have t: "table example_world = [example_rows ! 0, example_rows ! 1]"
    by (simp add: example_world_def example_rows_def)
  have n: "\<not> notified (example_rows ! 0)" "\<not> notified (example_rows ! 1)"
    by (simp_all add: example_rows_def)
  have f: "\<not> row_succeeds example_env (example_rows ! 0)"
    using example_row1_fails by (simp add: row_succeeds_def)
  note inst = poller_isolates_row_failures
    [of example_env "example_rows ! 0" example_world "[example_rows ! 1]"]
  have 1: "fst (notify_record example_env (example_rows ! 0) example_world) = None"
    using inst f by blast
  have 2: "fst (check_and_notify example_env example_world) = None"
    using inst example_reliable example_distinct by blast
  have 3: "table (snd (check_and_notify example_env example_world))
       = [example_rows ! 0, (example_rows ! 1)\<lparr>notified := True\<rparr>]"
    using inst example_reliable example_distinct t n example_row1_fails example_row2_succeeds
    by blast
  show ?thesis
    using example_reliable example_distinct f 1 2 3 by blast
qed

text \<open>
  Claim C10. A cycle of the poller, however it ends, changes nothing in the table but the
  \<open>notified\<close> column: the table keeps its length (no insert, no delete), and row by
  row the id, domain name, email, \<open>created_at\<close> and \<open>last_checked_at\<close> are what they
  were (\<open>last_checked_at\<close> is never written) and \<open>notified\<close> is never reset. With
  distinct ids, a row that differs from before is a pending row whose check and mail
  succeeded, now with \<open>notified\<close> true.
\<close>

theorem poller_changes_only_notified:
  "length (table (snd (check_and_notify env w))) = length (table w)
   \<and> list_all2 (\<lambda>a b. row_id b = row_id a \<and> domain_name b = domain_name a \<and> email b = email a
                  \<and> created_at b = created_at a \<and> last_checked_at b = last_checked_at a
                  \<and> (notified a \<longrightarrow> notified b))
       (table w) (table (snd (check_and_notify env w)))
   \<and> (distinct (map row_id (table w)) \<longrightarrow>
        list_all2 (\<lambda>a b. b = a \<or> (b = a\<lparr>notified := True\<rparr> \<and> \<not> notified a \<and> row_succeeds env a))
          (table w) (table (snd (check_and_notify env w))))"
proof (intro conjI impI)
  have rel: "list_all2 (\<lambda>a b. b = a \<or> (b = a\<lparr>notified := True\<rparr>
        \<and> (\<exists>r \<in> set (table w). (\<not> notified r \<and> row_succeeds env r) \<and> row_id r = row_id a)))
     (table w) (table (snd (check_and_notify env w)))"
    by (rule check_and_notify_rel)
  then show "length (table (snd (check_and_notify env w))) = length (table w)"
    by (simp add: list_all2_lengthD)
  show "list_all2 (\<lambda>a b. row_id b = row_id a \<and> domain_name b = domain_name a \<and> email b = email a
                  \<and> created_at b = created_at a \<and> last_checked_at b = last_checked_at a
                  \<and> (notified a \<longrightarrow> notified b))
       (table w) (table (snd (check_and_notify env w)))"
    using rel by (rule list_all2_mono) auto
next
  assume "distinct (map row_id (table w))"
  then show "list_all2 (\<lambda>a b. b = a \<or> (b = a\<lparr>notified := True\<rparr> \<and> \<not> notified a \<and> row_succeeds env a))
          (table w) (table (snd (check_and_notify env w)))"
    by (rule check_and_notify_rel_distinct)
qed

theorem poller_changes_only_notified_witness:
  "distinct (map row_id (table example_world))
   \<and> length (table (snd (check_and_notify example_env example_world))) = 2
   \<and> list_all2 (\<lambda>a b. b = a \<or> (b = a\<lparr>notified := True\<rparr> \<and> \<not> notified a \<and> row_succeeds example_env a))
          (table example_world) (table (snd (check_and_notify example_env example_world)))"
proof -
  have "length (table example_world) = 2"
    by (simp add: example_world_def example_rows_def)
  then show ?thesis
    using poller_changes_only_notified [of example_env example_world] example_distinct
    by simp
qed

section \<open>Alternatives for an unavailable domain: the claim\<close>

lemma exception_not_answered: "is_exception resp \<Longrightarrow> app_check_try resp = Inl e \<Longrightarrow> \<not> answered resp"
  by (simp add: answered_def)

lemma collect_results_eq:
  "collect_results (zip alts (map net alts))
     = map (\<lambda>alt. (alt, reported_available (net alt))) (filter (\<lambda>alt. answered (net alt)) alts)"
proof (induction alts)
  case Nil
  show ?case by simp
next
  case (Cons a alts)
  show ?case
  proof (cases "is_exception (net a)")
    case True
    then show ?thesis using Cons by (simp add: answered_def)
  next
    case False
    then show ?thesis
      using Cons by (cases "app_check_try (net a)") (auto simp: answered_def reported_available_def)
  qed
qed

lemma alternatives_nonempty: "alternatives_for ext \<noteq> []"
proof -
  have "''com'' \<noteq> ''io''" by simp
  then have "''.com'' \<noteq> ''.'' @ ext_suffix ext \<or> ''.io'' \<noteq> ''.'' @ ext_suffix ext"
    by (metis append_Cons append_Nil list.inject)
  then have "filter (\<lambda>tld. tld \<noteq> ''.'' @ ext_suffix ext) TLDS \<noteq> []"
    by (auto simp: TLDS_def)
  then show ?thesis by (simp add: alternatives_for_def Let_def)
qed

lemma example_alternatives:
  "alternatives_for (example_extract ''example.com'')
     = [''example.io'', ''example.co'', ''example.xyz'', ''example.net'']"
  by code_simp

lemma example_answers:
  "\<not> answered (example_net ''example.io'')" "answered (example_net ''example.co'')"
  "answered (example_net ''example.xyz'')" "answered (example_net ''example.net'')"
  "\<not> reported_available (example_net ''example.co'')"
  "\<not> reported_available (example_net ''example.xyz'')"
  "reported_available (example_net ''example.net'')"
  by code_simp+

text \<open>
  Claim C3, as amended. The candidates are the base label under every configured TLD
  other than the supplied one. The result never is an error and never is empty, and its
  names are candidates. When at least one request is answered, the result has one entry
  for every candidate whose request was answered, in the order of the candidates, with
  the status the upstream reported; a candidate whose request raised, or whose body
  could not be read, has no entry. When no request is answered, every candidate is
  returned, marked unavailable.
\<close>

theorem alternatives_skip_failed_calls:
  "((\<exists>alt \<in> set (alternatives_for (extract domain)). answered (net alt)) \<longrightarrow>
      suggest_alternatives extract net domain
        = map (\<lambda>alt. (alt, reported_available (net alt)))
            (filter (\<lambda>alt. answered (net alt)) (alternatives_for (extract domain)))) \<and>
   ((\<forall>alt \<in> set (alternatives_for (extract domain)). \<not> answered (net alt)) \<longrightarrow>
      suggest_alternatives extract net domain
        = map (\<lambda>alt. (alt, False)) (alternatives_for (extract domain))) \<and>
   suggest_alternatives extract net domain \<noteq> [] \<and>
   fst ` set (suggest_alternatives extract net domain) \<subseteq> set (alternatives_for (extract domain))"
proof -
  let ?alts = "alternatives_for (extract domain)"
  let ?ok = "filter (\<lambda>alt. answered (net alt)) ?alts"
  have res: "suggest_alternatives extract net domain
      = (if ?ok = [] then map (\<lambda>alt. (alt, False)) ?alts
         else map (\<lambda>alt. (alt, reported_available (net alt))) ?ok)"
    by (simp add: suggest_alternatives_def Let_def collect_results_eq)
  have ne: "?alts \<noteq> []" by (rule alternatives_nonempty)
  have a: "(\<exists>alt \<in> set ?alts. answered (net alt)) \<longrightarrow>
      suggest_alternatives extract net domain = map (\<lambda>alt. (alt, reported_available (net alt))) ?ok"
    unfolding res by (auto simp: filter_empty_conv)
  have b: "(\<forall>alt \<in> set ?alts. \<not> answered (net alt)) \<longrightarrow>
      suggest_alternatives extract net domain = map (\<lambda>alt. (alt, False)) ?alts"
    unfolding res by (auto simp: filter_empty_conv)
  have c: "suggest_alternatives extract net domain \<noteq> []"
    unfolding res using ne by simp
  have d: "fst ` set (suggest_alternatives extract net domain) \<subseteq> set ?alts"
    unfolding res by (auto simp: image_iff)
  show ?thesis using a b c d by blast
qed

theorem alternatives_skip_failed_calls_witness:
  "suggest_alternatives example_extract example_net ''example.com''
     = [(''example.co'', False), (''example.xyz'', False), (''example.net'', True)]
   \<and> suggest_alternatives example_extract (\<lambda>d. Timeout) ''example.com''
     = [(''example.io'', False), (''example.co'', False), (''example.xyz'', False), (''example.net'', False)]"
proof -
  have 1: "suggest_alternatives example_extract example_net ''example.com''
     = [(''example.co'', False), (''example.xyz'', False), (''example.net'', True)]"
    using alternatives_skip_failed_calls [of example_extract "''example.com''" example_net]
    by (simp add: example_alternatives example_answers)
  have t: "\<not> answered Timeout" by (simp add: answered_def is_exception_def)
  have 2: "suggest_alternatives example_extract (\<lambda>d. Timeout) ''example.com''
     = [(''example.io'', False), (''example.co'', False), (''example.xyz'', False), (''example.net'', False)]"
    using alternatives_skip_failed_calls [of example_extract "''example.com''" "\<lambda>d. Timeout"]
    by (simp add: example_alternatives t)
  show ?thesis using 1 2 by simp
qed

text \<open>
  The claim as it is written fails: for \<open>example.com\<close>, when the request for
  \<open>example.io\<close> times out and the three others are answered, \<open>example.io\<close> is a
  candidate and has no entry in the result.
\<close>

theorem alternatives_counterexample:
  "''example.io'' \<in> set (alternatives_for (example_extract ''example.com''))
   \<and> example_net ''example.io'' = Timeout
   \<and> answered (example_net ''example.co'') \<and> answered (example_net ''example.xyz'')
   \<and> answered (example_net ''example.net'')
   \<and> ''example.io'' \<notin> fst ` set (suggest_alternatives example_extract example_net ''example.com'')"
  by code_simp

section \<open>Start-up and cadence of the notifier: the claims\<close>

lemma sleeps_append: "sleeps (xs @ ys) = sleeps xs @ sleeps ys"
  by (induction xs rule: sleeps.induct) auto

lemma event_row_sleeps: "\<forall>e \<in> set evs. event_row e \<noteq> None \<Longrightarrow> sleeps evs = []"
  by (induction evs rule: sleeps.induct) auto

lemma check_and_notify_sleeps:
  "sleeps (journal (snd (check_and_notify env w))) = sleeps (journal w)"
proof -
  obtain evs where evs: "journal (snd (check_and_notify env w)) = journal w @ evs"
      "\<forall>e \<in> set evs. \<exists>r \<in> set (pending_rows (table w)). event_row e = Some (row_id r)"
    using check_and_notify_journal [of env w] by blast
  then have "\<forall>e \<in> set evs. event_row e \<noteq> None" by fastforce
  then show ?thesis using evs(1) by (simp add: sleeps_append event_row_sleeps)
qed

lemma main_loop_sleeps:
  "\<exists>n \<le> length envs. sleeps (journal (snd (notifier_main_loop envs w)))
       = sleeps (journal w) @ replicate n 30"
proof (induction envs arbitrary: w)
  case Nil
  show ?case by simp
next
  case (Cons env envs)
  obtain res w1 where step: "check_and_notify env w = (res, w1)"
    by (cases "check_and_notify env w")
  have s1: "sleeps (journal w1) = sleeps (journal w)"
    using check_and_notify_sleeps [of env w] step by simp
  show ?case
  proof (cases res)
    case (Some e)
    then have "sleeps (journal (snd (notifier_main_loop (env # envs) w)))
        = sleeps (journal w) @ replicate 0 30"
      using step s1 by simp
    then show ?thesis by blast
  next
    case None
    let ?w2 = "w1\<lparr>journal := journal w1 @ [Slept 30]\<rparr>"
    obtain n where n: "n \<le> length envs"
        "sleeps (journal (snd (notifier_main_loop envs ?w2))) = sleeps (journal ?w2) @ replicate n 30"
      using Cons.IH [of ?w2] by blast
    have "sleeps (journal ?w2) = sleeps (journal w) @ [30]"
      using s1 by (simp add: sleeps_append)
    then have "sleeps (journal (snd (notifier_main_loop (env # envs) w)))
        = sleeps (journal w) @ replicate (Suc n) 30"
      using step None n(2) by (simp add: replicate_app_Cons_same)
    moreover have "Suc n \<le> length (env # envs)" using n(1) by simp
    ultimately show ?thesis by blast
  qed
qed

text \<open>
  Whatever the process environment holds, every sleep of notifier.py lasts 30 seconds:
  the source passes the literal to \<open>time.sleep\<close> and reads no variable for it.
\<close>

lemma notifier_sleeps_thirty:
  "\<exists>n \<le> length envs. sleeps (journal (snd (notifier_main py_int environ envs w)))
       = sleeps (journal w) @ replicate n 30"
proof (cases "notifier_startup py_int environ")
  case (Inl e)
  then have "sleeps (journal (snd (notifier_main py_int environ envs w)))
      = sleeps (journal w) @ replicate 0 30"
    by (simp add: notifier_main_def)
  then show ?thesis by blast
next
  case (Inr cfg)
  then show ?thesis using main_loop_sleeps [of envs w] by (simp add: notifier_main_def)
qed

text \<open>
  Claim C8 says that the poller runs once per interval whose duration is configurable,
  6 hours in production. The code does otherwise: with an environment that asks for
  21600 seconds, two cycles are followed by sleeps of 30 seconds each. The source's own
  comment and log lines say 6 hours.
\<close>

theorem poll_interval_is_hardcoded:
  "sleeps (journal (snd (notifier_main py_int [''POLL_INTERVAL'' \<mapsto> ''21600'']
      [example_env, example_env] \<lparr>table = [], journal = []\<rparr>))) = [30, 30]"
  by (simp add: notifier_main_def notifier_startup_def check_and_notify_def example_env_def
      pending_rows_def)

lemma app_startup_needs_key:
  "environ ''WHOISXML_API_KEY'' = None \<or> environ ''WHOISXML_API_KEY'' = Some []
     \<Longrightarrow> app_startup db_ok environ = Inl ValueError"
  by (auto simp: app_startup_def Let_def)

lemma notifier_startup_ignores_key:
  "environ ''EMAIL_PORT'' = None \<Longrightarrow>
     \<exists>cfg. notifier_startup py_int environ = Inr cfg
          \<and> whoisxml_api_key cfg = environ ''WHOISXML_API_KEY''"
  by (simp add: notifier_startup_def)

text \<open>
  Claim C9 says that without the WHOIS API key both processes fail at start-up. With an
  empty environment app.py raises ValueError, as the claim says; notifier.py starts with
  the key None and runs its cycle.
\<close>

theorem missing_api_key_startup:
  "app_startup db_ok Map.empty = Inl ValueError
   \<and> notifier_startup py_int Map.empty
       = Inr \<lparr>whoisxml_api_key = None, db_host = None, db_user = None, db_password = None,
              db_name = None, email_host = None, email_port = 587, email_user = None,
              email_password = None\<rparr>
   \<and> fst (notifier_main py_int Map.empty [example_env] example_world) = None"
proof -
  have "fst (check_and_notify example_env example_world) = None"
    by (rule check_and_notify_fst_reliable) (rule example_reliable)
  then have "fst (notifier_main_loop [example_env] example_world) = None"
    by (cases "check_and_notify example_env example_world") simp
  then show ?thesis
    by (simp add: app_startup_def notifier_startup_def notifier_main_def)
qed

section \<open>The /notify route: the claim\<close>

text \<open>The pattern on some addresses: it asks for nothing after the first match.\<close>

lemma email_pattern_examples:
  "email_pattern_matches ''a@b.c''" "email_pattern_matches ''a@b.c@d''"
  "\<not> email_pattern_matches ''@a.b''" "\<not> email_pattern_matches ''a@.b''"
  "\<not> email_pattern_matches ''a@b.''" "\<not> email_pattern_matches ''a@b@c.d''"
  by code_simp+

lemma in_tl_in_set: "x \<in> set (tl xs) \<Longrightarrow> x \<in> set xs"
  by (cases xs) auto

lemma pattern_needs_at_and_dot: "email_pattern_matches e \<Longrightarrow> spec_minimal_pattern e"
proof -
  assume m: "email_pattern_matches e"
  let ?rest = "dropWhile (\<lambda>c. c \<noteq> CHR ''@'') e"
  have "CHR ''.'' \<in> set (butlast (tl (takeWhile (\<lambda>c. c \<noteq> CHR ''@'') (tl ?rest))))"
    using m by (simp add: email_pattern_matches_def Let_def)
  then have "CHR ''.'' \<in> set (tl (takeWhile (\<lambda>c. c \<noteq> CHR ''@'') (tl ?rest)))"
    by (rule in_set_butlastD)
  then have "CHR ''.'' \<in> set (takeWhile (\<lambda>c. c \<noteq> CHR ''@'') (tl ?rest))"
    by (rule in_tl_in_set)
  then have "CHR ''.'' \<in> set (tl ?rest)"
    by (rule set_takeWhileD [THEN conjunct1])
  then have "CHR ''.'' \<in> set ?rest"
    by (rule in_tl_in_set)
  then show ?thesis by (simp add: spec_minimal_pattern_def)
qed

text \<open>
  A field that is neither missing, nor falsy, nor a string has no \<open>strip\<close>: the
  AttributeError leaves the view function before the database is touched.
\<close>

lemma notify_route_non_string:
  "strip_lower (or_empty (map_of data ''domain'')) = Inl x
     \<or> (\<exists>d. strip_lower (or_empty (map_of data ''domain'')) = Inr d)
         \<and> strip_lower (or_empty (map_of data ''email'')) = Inl x
   \<Longrightarrow> subscribe_for_notification env now data st = (Unhandled x, st, [])"
  by (auto simp: subscribe_for_notification_def)

lemma notify_route_accepts:
  assumes "strip_lower (or_empty (map_of data ''domain'')) = Inr d"
      and "strip_lower (or_empty (map_of data ''email'')) = Inr e"
      and "d \<noteq> []" "e \<noteq> []" "email_pattern_matches e"
      and "ins_connect_ok env" "ins_execute_ok env" "ins_commit_ok env"
  shows "subscribe_for_notification env now data st =
           (Json 200 [(''message'', ''You will be notified when '' @ d @ '' becomes available.''),
                      (''domain'', d), (''email'', e)],
            \<lparr>rows = rows st @ [\<lparr>row_id = next_id st, domain_name = d, email = e, notified = False,
                                 created_at = now, last_checked_at = None\<rparr>],
             next_id = Suc (next_id st)\<rparr>,
            [Connect, ExecuteInsert, Commit, Close])"
  using assms
  by (simp add: subscribe_for_notification_def Let_def execute_insert_def commit_def close_def)

lemma notify_route_rejects:
  assumes "strip_lower (or_empty (map_of data ''domain'')) = Inr d"
      and "strip_lower (or_empty (map_of data ''email'')) = Inr e"
      and "d = [] \<or> e = [] \<or> \<not> email_pattern_matches e"
  shows "subscribe_for_notification env now data st =
           (Json 400 [(''error'', if d = [] \<or> e = [] then ''domain and email required''
                                  else ''invalid email'')], st, [])"
  using assms by (auto simp: subscribe_for_notification_def)

lemma notify_route_db_failure:
  assumes "strip_lower (or_empty (map_of data ''domain'')) = Inr d"
      and "strip_lower (or_empty (map_of data ''email'')) = Inr e"
      and "d \<noteq> []" "e \<noteq> []" "email_pattern_matches e"
      and "\<not> (ins_connect_ok env \<and> ins_execute_ok env \<and> ins_commit_ok env)"
  shows "subscribe_for_notification env now data st =
           (if \<not> ins_connect_ok env then (Unhandled OperationalError, st, [Connect])
            else if \<not> ins_execute_ok env
              then (Json 500 [(''error'', ''db error'')], st, [Connect, ExecuteInsert, Rollback, Close])
            else (Json 500 [(''error'', ''db error'')], st,
                  [Connect, ExecuteInsert, Commit, Rollback, Close]))"
  using assms
  by (auto simp: subscribe_for_notification_def Let_def execute_insert_def rollback_def close_def)

lemma example_request_fields:
  "strip_lower (or_empty (map_of example_request ''domain'')) = Inr ''example.com''"
  "strip_lower (or_empty (map_of example_request ''email'')) = Inr ''user@test.com''"
  "strip_lower (or_empty (map_of bad_email_request ''domain'')) = Inr ''example.com''"
  "strip_lower (or_empty (map_of bad_email_request ''email'')) = Inr ''not-an-email''"
  by code_simp+

lemma example_emails:
  "email_pattern_matches ''user@test.com''" "\<not> email_pattern_matches ''not-an-email''"
  by code_simp+

text \<open>
  What the route does with a request whose fields \<open>domain\<close> and \<open>email\<close> are strings
  or missing, \<open>d\<close> and \<open>e\<close> being what the route makes of them (stripped, lowercased):
  \<^item> when both are non-empty, \<open>e\<close> matches the pattern and the database accepts the
    insert, the answer is 200 and the table gains exactly one row, at its end, with the
    domain, the email and \<open>notified\<close> false;
  \<^item> when one is empty or \<open>e\<close> does not match the pattern, the answer is 400, no
    database call is made and the table is what it was; an address without an \<open>@\<close>, or
    without a dot after it (the spec's minimal pattern), does not match;
  \<^item> when the database refuses the connection, the INSERT or the commit, the answer is
    a 500 and the table is what it was; after a refused INSERT or commit the route rolls
    back and answers \<open>db error\<close>.
\<close>

theorem notify_route_outcomes:
  assumes "strip_lower (or_empty (map_of data ''domain'')) = Inr d"
      and "strip_lower (or_empty (map_of data ''email'')) = Inr e"
  shows "(d \<noteq> [] \<and> e \<noteq> [] \<and> email_pattern_matches e
            \<and> ins_connect_ok env \<and> ins_execute_ok env \<and> ins_commit_ok env \<longrightarrow>
          subscribe_for_notification env now data st =
            (Json 200 [(''message'', ''You will be notified when '' @ d @ '' becomes available.''),
                       (''domain'', d), (''email'', e)],
             \<lparr>rows = rows st @ [\<lparr>row_id = next_id st, domain_name = d, email = e, notified = False,
                                  created_at = now, last_checked_at = None\<rparr>],
              next_id = Suc (next_id st)\<rparr>,
             [Connect, ExecuteInsert, Commit, Close]))
       \<and> (d = [] \<or> e = [] \<or> \<not> email_pattern_matches e \<longrightarrow>
            status_code (fst (subscribe_for_notification env now data st)) = 400
            \<and> fst (snd (subscribe_for_notification env now data st)) = st
            \<and> snd (snd (subscribe_for_notification env now data st)) = [])
       \<and> (\<not> spec_minimal_pattern e \<longrightarrow> \<not> email_pattern_matches e)
       \<and> (d \<noteq> [] \<and> e \<noteq> [] \<and> email_pattern_matches e
            \<and> \<not> (ins_connect_ok env \<and> ins_execute_ok env \<and> ins_commit_ok env) \<longrightarrow>
            status_code (fst (subscribe_for_notification env now data st)) = 500
            \<and> fst (snd (subscribe_for_notification env now data st)) = st
            \<and> (ins_connect_ok env \<longrightarrow>
                  fst (subscribe_for_notification env now data st) = Json 500 [(''error'', ''db error'')]
                  \<and> Rollback \<in> set (snd (snd (subscribe_for_notification env now data st)))))"
proof (intro conjI impI)
  assume "d \<noteq> [] \<and> e \<noteq> [] \<and> email_pattern_matches e
            \<and> ins_connect_ok env \<and> ins_execute_ok env \<and> ins_commit_ok env"
  then show "subscribe_for_notification env now data st =
            (Json 200 [(''message'', ''You will be notified when '' @ d @ '' becomes available.''),
                       (''domain'', d), (''email'', e)],
             \<lparr>rows = rows st @ [\<lparr>row_id = next_id st, domain_name = d, email = e, notified = False,
                                  created_at = now, last_checked_at = None\<rparr>],
              next_id = Suc (next_id st)\<rparr>,
             [Connect, ExecuteInsert, Commit, Close])"
    using notify_route_accepts [OF assms] by blast
next
  assume r: "d = [] \<or> e = [] \<or> \<not> email_pattern_matches e"
  note rej = notify_route_rejects [OF assms r, of env now st]
  show "status_code (fst (subscribe_for_notification env now data st)) = 400"
    and "fst (snd (subscribe_for_notification env now data st)) = st"
    and "snd (snd (subscribe_for_notification env now data st)) = []"
    by (simp_all add: rej)
next
  assume "\<not> spec_minimal_pattern e"
  then show "\<not> email_pattern_matches e"
    using pattern_needs_at_and_dot by blast
next
  assume f: "d \<noteq> [] \<and> e \<noteq> [] \<and> email_pattern_matches e
            \<and> \<not> (ins_connect_ok env \<and> ins_execute_ok env \<and> ins_commit_ok env)"
  have fail: "subscribe_for_notification env now data st =
           (if \<not> ins_connect_ok env then (Unhandled OperationalError, st, [Connect])
            else if \<not> ins_execute_ok env
              then (Json 500 [(''error'', ''db error'')], st, [Connect, ExecuteInsert, Rollback, Close])
            else (Json 500 [(''error'', ''db error'')], st,
                  [Connect, ExecuteInsert, Commit, Rollback, Close]))"
    using f notify_route_db_failure [OF assms, of env now st] by blast
  show "status_code (fst (subscribe_for_notification env now data st)) = 500"
    and "fst (snd (subscribe_for_notification env now data st)) = st"
    by (simp_all add: fail)
  assume "ins_connect_ok env"
  then show "fst (subscribe_for_notification env now data st) = Json 500 [(''error'', ''db error'')]"
    and "Rollback \<in> set (snd (snd (subscribe_for_notification env now data st)))"
    by (simp_all add: fail)
qed

theorem notify_route_outcomes_witness:
  "subscribe_for_notification db_accepts 100 example_request empty_store =
     (Json 200 [(''message'', ''You will be notified when example.com becomes available.''),
                (''domain'', ''example.com''), (''email'', ''user@test.com'')],
      \<lparr>rows = [\<lparr>row_id = 1, domain_name = ''example.com'', email = ''user@test.com'',
                 notified = False, created_at = 100, last_checked_at = None\<rparr>],
       next_id = 2\<rparr>,
      [Connect, ExecuteInsert, Commit, Close])
   \<and> status_code (fst (subscribe_for_notification db_accepts 100 bad_email_request empty_store)) = 400
   \<and> fst (snd (subscribe_for_notification db_accepts 100 bad_email_request empty_store)) = empty_store
   \<and> snd (snd (subscribe_for_notification db_accepts 100 bad_email_request empty_store)) = []
   \<and> status_code (fst (subscribe_for_notification db_refuses_commit 100 example_request empty_store)) = 500
   \<and> fst (snd (subscribe_for_notification db_refuses_commit 100 example_request empty_store)) = empty_store
   \<and> Rollback \<in> set (snd (snd (subscribe_for_notification db_refuses_commit 100 example_request empty_store)))"
proof -
  have ok: "subscribe_for_notification db_accepts 100 example_request empty_store =
     (Json 200 [(''message'', ''You will be notified when example.com becomes available.''),
                (''domain'', ''example.com''), (''email'', ''user@test.com'')],
      \<lparr>rows = [\<lparr>row_id = 1, domain_name = ''example.com'', email = ''user@test.com'',
                 notified = False, created_at = 100, last_checked_at = None\<rparr>],
       next_id = 2\<rparr>,
      [Connect, ExecuteInsert, Commit, Close])"
    using notify_route_outcomes [OF example_request_fields(1,2), of db_accepts 100 empty_store]
      example_emails(1)
    by (simp add: db_accepts_def empty_store_def)
  have bad: "status_code (fst (subscribe_for_notification db_accepts 100 bad_email_request empty_store)) = 400
      \<and> fst (snd (subscribe_for_notification db_accepts 100 bad_email_request empty_store)) = empty_store
      \<and> snd (snd (subscribe_for_notification db_accepts 100 bad_email_request empty_store)) = []"
    using notify_route_outcomes [OF example_request_fields(3,4), of db_accepts 100 empty_store]
      example_emails(2)
    by blast
  have fail: "status_code (fst (subscribe_for_notification db_refuses_commit 100 example_request empty_store)) = 500
      \<and> fst (snd (subscribe_for_notification db_refuses_commit 100 example_request empty_store)) = empty_store
      \<and> Rollback \<in> set (snd (snd (subscribe_for_notification db_refuses_commit 100 example_request empty_store)))"
    using notify_route_outcomes [OF example_request_fields(1,2), of db_refuses_commit 100 empty_store]
      example_emails(1)
    by (simp add: db_refuses_commit_def)
  show ?thesis using ok bad fail by simp
qed

text \<open>
  Claim C6 says that a /notify request with a well-formed domain and email adds exactly
  one row with \<open>notified\<close> false, that a malformed email or a missing field is rejected
  as a client error before any I/O, and that a failed write is answered as a server error
  with the table unchanged. For fields that are strings or missing the route does so, as
  shown above. An email that is not a string is not rejected as a client error: for the
  body with the domain \<open>example.com\<close> and the email 123, \<open>strip\<close> raises AttributeError,
  which leaves the view function (a 500); no database call is made and no row is written.
\<close>

theorem notify_route_non_string_email:
  "subscribe_for_notification db_accepts 100
      [(''domain'', JStr ''example.com''), (''email'', JNum 123)] empty_store
     = (Unhandled AttributeError, empty_store, [])
   \<and> status_code (Unhandled AttributeError) = 500"
  by (simp add: subscribe_for_notification_def strip_lower_def or_empty_def py_strip_def
      py_lower_def py_isspace_def py_lower_char_def)

section \<open>Candidate generation: the claim\<close>

text \<open>Listing a set changes neither its elements nor their number, and repeats none.\<close>

lemma pick_split:
  assumes "i < length ys"
  shows "\<exists>a b. ys = a @ ys ! i # b \<and> take i ys @ drop (Suc i) ys = a @ b"
proof -
  have "ys = take i ys @ ys ! i # drop (Suc i) ys"
    using assms by (rule id_take_nth_drop)
  then show ?thesis by blast
qed

lemma set_iteration_step:
  "set_iteration (p # picks) (x # xs) =
     (x # xs) ! (p mod length (x # xs))
       # set_iteration picks (take (p mod length (x # xs)) (x # xs)
                              @ drop (Suc (p mod length (x # xs))) (x # xs))"
  by (simp add: Let_def)

lemma set_iteration_set: "set (set_iteration picks xs) = set xs"
proof (induction picks xs rule: set_iteration.induct)
  case (3 p picks x xs)
  define ys where "ys = x # xs"
  define i where "i = p mod length ys"
  have "i < length ys" by (simp add: i_def ys_def)
  then obtain a b where ab: "ys = a @ ys ! i # b" "take i ys @ drop (Suc i) ys = a @ b"
    using pick_split by blast
  have "set (set_iteration picks (take i ys @ drop (Suc i) ys)) = set (take i ys @ drop (Suc i) ys)"
    unfolding i_def ys_def by (rule "3.IH" [OF refl])
  then have ih: "set (set_iteration picks (a @ b)) = set (a @ b)"
    by (simp only: ab(2))
  have "set_iteration (p # picks) ys = ys ! i # set_iteration picks (take i ys @ drop (Suc i) ys)"
    unfolding ys_def i_def by (rule set_iteration_step)
  then have "set_iteration (p # picks) ys = ys ! i # set_iteration picks (a @ b)"
    by (simp only: ab(2))
  then have "set (set_iteration (p # picks) ys) = insert (ys ! i) (set (a @ b))"
    using ih by simp
  also have "\<dots> = set (a @ ys ! i # b)" by auto
  also have "\<dots> = set ys" using ab(1) by simp
  finally show ?case by (simp add: ys_def)
qed simp_all

lemma set_iteration_distinct: "distinct xs \<Longrightarrow> distinct (set_iteration picks xs)"
proof (induction picks xs rule: set_iteration.induct)
  case (3 p picks x xs)
  define ys where "ys = x # xs"
  define i where "i = p mod length ys"
  have "i < length ys" by (simp add: i_def ys_def)
  then obtain a b where ab: "ys = a @ ys ! i # b" "take i ys @ drop (Suc i) ys = a @ b"
    using pick_split by blast
  have "distinct ys" using "3.prems" by (simp add: ys_def)
  then have d: "distinct (a @ ys ! i # b)" using ab(1) by simp
  then have dab: "distinct (a @ b)" and notin: "ys ! i \<notin> set (a @ b)" by auto
  have "distinct (take i ys @ drop (Suc i) ys)" using dab by (simp only: ab(2))
  then have "distinct (set_iteration picks (take i ys @ drop (Suc i) ys))"
    unfolding i_def ys_def by (rule "3.IH" [OF refl])
  then have 1: "distinct (set_iteration picks (a @ b))" by (simp only: ab(2))
  have 2: "ys ! i \<notin> set (set_iteration picks (a @ b))"
    using notin by (simp add: set_iteration_set)
  have "set_iteration (p # picks) ys = ys ! i # set_iteration picks (take i ys @ drop (Suc i) ys)"
    unfolding ys_def i_def by (rule set_iteration_step)
  then have "set_iteration (p # picks) ys = ys ! i # set_iteration picks (a @ b)"
    by (simp only: ab(2))
  then have "distinct (set_iteration (p # picks) ys)" using 1 2 by simp
  then show ?case by (simp add: ys_def)
qed simp_all

lemma set_iteration_length: "length (set_iteration picks xs) = length xs"
proof (induction picks xs rule: set_iteration.induct)
  case (3 p picks x xs)
  let ?ys = "x # xs"
  let ?i = "p mod length ?ys"
  have i: "?i < length ?ys" by simp
  have "length (take ?i ?ys @ drop (Suc ?i) ?ys) = length xs"
    using i by simp
  then show ?case using "3.IH" [of ?i] by (simp add: Let_def)
qed simp_all

text \<open>Every order of the set is the listing for some \<open>set_order\<close>.\<close>

lemma set_iteration_any_order:
  "distinct xs \<Longrightarrow> distinct ys \<Longrightarrow> set ys = set xs \<Longrightarrow> \<exists>picks. set_iteration picks xs = ys"
proof (induction ys arbitrary: xs)
  case Nil
  then have "xs = []" by simp
  then have "set_iteration [] xs = []" by simp
  then show ?case by blast
next
  case (Cons y ys)
  have "y \<in> set xs" using Cons.prems(3) by auto
  then obtain i where i: "i < length xs" "xs ! i = y"
    by (auto simp: in_set_conv_nth)
  obtain a b where ab: "xs = a @ xs ! i # b" "take i xs @ drop (Suc i) xs = a @ b"
    using pick_split [OF i(1)] by blast
  have d: "distinct (a @ y # b)" using Cons.prems(1) ab(1) i(2) by simp
  then have dab: "distinct (a @ b)" and notin: "y \<notin> set (a @ b)" by auto
  have "set xs = insert y (set (a @ b))" using ab(1) i(2) by (metis list.simps(15) set_append Un_insert_right)
  moreover have "set (y # ys) = insert y (set ys)" by simp
  moreover have "y \<notin> set ys" using Cons.prems(2) by simp
  ultimately have "set ys = set (a @ b)"
    using Cons.prems(3) notin by auto
  then obtain picks where picks: "set_iteration picks (a @ b) = ys"
    using Cons.IH [OF dab] Cons.prems(2) by auto
  obtain x xs' where xs: "xs = x # xs'" using i(1) by (cases xs) auto
  have m: "i mod length xs = i" using i(1) by simp
  have "set_iteration (i # picks) (x # xs') =
     (x # xs') ! (i mod length (x # xs'))
       # set_iteration picks (take (i mod length (x # xs')) (x # xs')
                              @ drop (Suc (i mod length (x # xs'))) (x # xs'))"
    by (rule set_iteration_step)
  then have "set_iteration (i # picks) xs = xs ! i # set_iteration picks (take i xs @ drop (Suc i) xs)"
    using m by (simp only: xs [symmetric])
  then have "set_iteration (i # picks) xs = y # ys"
    by (simp only: ab(2) picks i(2))
  then show ?case by blast
qed

lemma random_choice_mem: "xs \<noteq> [] \<Longrightarrow> random_choice xs n \<in> set xs"
  by (simp add: random_choice_def)

text \<open>No name has a dot; every TLD starts with one: the name is what precedes the first dot.\<close>

lemma az09_not_dot: "is_az09 c \<Longrightarrow> c \<noteq> CHR ''.''"
  by (auto simp: is_az09_def)

lemma sanitize_no_dot: "CHR ''.'' \<notin> set (sanitize_word w)"
  using az09_not_dot by (auto simp: sanitize_word_def)

lemma prefixes_no_dot: "p \<in> set PREFIXES \<Longrightarrow> CHR ''.'' \<notin> set p"
  by (auto simp: PREFIXES_def)

lemma suffixes_no_dot: "s \<in> set SUFFIXES \<Longrightarrow> CHR ''.'' \<notin> set s"
  by (auto simp: SUFFIXES_def)

lemma added_ideas_no_dot:
  assumes "CHR ''.'' \<notin> set k" and "n \<in> set (added_ideas extra k)"
  shows "CHR ''.'' \<notin> set n"
proof -
  have e: "random_choice SUFFIXES extra \<in> set SUFFIXES"
    by (rule random_choice_mem) (simp add: SUFFIXES_def)
  have t: "\<And>x. x \<in> set (take 3 SUFFIXES) \<Longrightarrow> x \<in> set SUFFIXES"
    "\<And>x. x \<in> set (take 3 PREFIXES) \<Longrightarrow> x \<in> set PREFIXES"
    by (auto dest: in_set_takeD)
  from assms(2) consider
      (pre) p where "p \<in> set PREFIXES" "n = p @ k"
    | (suf) s where "s \<in> set SUFFIXES" "n = k @ s \<or> n = k @ ''-'' @ s"
    | (bare) "n = k"
    | (extra) "n = k @ random_choice SUFFIXES extra"
    | (both) p s where "p \<in> set (take 3 PREFIXES)" "s \<in> set (take 3 SUFFIXES)" "n = p @ k @ s"
    unfolding added_ideas_def by auto
  then show ?thesis
  proof cases
    case pre
    then show ?thesis using assms(1) prefixes_no_dot by auto
  next
    case suf
    then show ?thesis using assms(1) suffixes_no_dot by auto
  next
    case bare
    then show ?thesis using assms(1) by simp
  next
    case extra
    then show ?thesis using assms(1) suffixes_no_dot [OF e] by auto
  next
    case both
    then show ?thesis using assms(1) prefixes_no_dot suffixes_no_dot t by auto
  qed
qed

lemma tlds_start_with_dot: "t \<in> set TLDS \<Longrightarrow> \<exists>r. t = CHR ''.'' # r"
  by (auto simp: TLDS_def)

lemma name_before_dot:
  assumes "CHR ''.'' \<notin> set n" and "t \<in> set TLDS"
  shows "takeWhile (\<lambda>c. c \<noteq> CHR ''.'') (n @ t) = n"
proof -
  obtain r where r: "t = CHR ''.'' # r" using tlds_start_with_dot [OF assms(2)] by blast
  have "takeWhile (\<lambda>c. c \<noteq> CHR ''.'') (n @ t) = n @ takeWhile (\<lambda>c. c \<noteq> CHR ''.'') t"
    using assms(1) by (intro takeWhile_append2) auto
  then show ?thesis using r by simp
qed

lemma distinct_filter_eq_le: "distinct ys \<Longrightarrow> length (filter (\<lambda>y. y = c) ys) \<le> Suc 0"
  by (induction ys) (auto simp: filter_empty_conv)

lemma distinct_filter_eq_one:
  "distinct ys \<Longrightarrow> c \<in> set ys \<Longrightarrow> length (filter (\<lambda>y. y = c) ys) = Suc 0"
  by (induction ys) (auto simp: filter_empty_conv)

lemma idea_names_subset:
  "set (idea_names ch keyword limit) \<subseteq> set (added_ideas (extra_suffix_pick ch) (sanitize_word keyword))"
proof -
  have "set (slice_to limit xs) \<subseteq> set xs" for xs :: "string list"
    by (auto simp: slice_to_def dest: in_set_takeD)
  then show ?thesis
    by (fastforce simp: idea_names_def Let_def set_iteration_set)
qed

lemma idea_names_distinct: "distinct (idea_names ch keyword limit)"
proof -
  have "distinct xs \<Longrightarrow> distinct (slice_to limit xs)" for xs :: "string list"
    by (simp add: slice_to_def)
  then show ?thesis
    by (simp add: idea_names_def Let_def set_iteration_distinct)
qed

lemma idea_names_length: "0 \<le> limit \<Longrightarrow> length (idea_names ch keyword limit) \<le> nat limit"
  by (simp add: idea_names_def Let_def slice_to_def)

lemma idea_names_no_dot: "n \<in> set (idea_names ch keyword limit) \<Longrightarrow> CHR ''.'' \<notin> set n"
  using idea_names_subset added_ideas_no_dot [OF sanitize_no_dot] by blast

lemma drawn_tld: "random_choice TLDS n \<in> set TLDS"
  by (rule random_choice_mem) (simp add: TLDS_def)

lemma enumerate_snd_mem: "z \<in> set (enumerate k xs) \<Longrightarrow> snd z \<in> set xs"
  by (cases z) (auto simp: enumerate_eq_zip dest: set_zip_rightD)

lemma generated_names:
  "map (takeWhile (\<lambda>c. c \<noteq> CHR ''.'')) (generate_domain_ideas ch keyword limit)
     = idea_names ch keyword limit"
proof -
  let ?names = "idea_names ch keyword limit"
  have "map (takeWhile (\<lambda>c. c \<noteq> CHR ''.'')) (generate_domain_ideas ch keyword limit)
      = map (\<lambda>(i, name). takeWhile (\<lambda>c. c \<noteq> CHR ''.'') (name @ random_choice TLDS (tld_pick ch i)))
          (enumerate 0 ?names)"
    by (simp add: generate_domain_ideas_def split_def comp_def)
  also have "\<dots> = map snd (enumerate 0 ?names)"
  proof (rule map_cong [OF refl])
    fix z assume "z \<in> set (enumerate 0 ?names)"
    then have "snd z \<in> set ?names"
      by (rule enumerate_snd_mem)
    then have "CHR ''.'' \<notin> set (snd z)" by (rule idea_names_no_dot)
    then show "(case z of (i, name) \<Rightarrow>
        takeWhile (\<lambda>c. c \<noteq> CHR ''.'') (name @ random_choice TLDS (tld_pick ch i))) = snd z"
      by (cases z) (simp add: name_before_dot drawn_tld)
  qed
  also have "\<dots> = ?names" by simp
  finally show ?thesis .
qed

lemma generated_shape:
  assumes "x \<in> set (generate_domain_ideas ch keyword limit)"
  shows "\<exists>n \<in> set (idea_names ch keyword limit). \<exists>t \<in> set TLDS. x = n @ t"
proof -
  obtain i n where in_e: "(i, n) \<in> set (enumerate 0 (idea_names ch keyword limit))"
      and x: "x = n @ random_choice TLDS (tld_pick ch i)"
    using assms by (auto simp: generate_domain_ideas_def)
  have "n \<in> set (idea_names ch keyword limit)"
    using enumerate_snd_mem [OF in_e] by simp
  then show ?thesis
    using x drawn_tld by blast
qed

lemma generated_distinct: "distinct (generate_domain_ideas ch keyword limit)"
proof -
  have "distinct (map (takeWhile (\<lambda>c. c \<noteq> CHR ''.'')) (generate_domain_ideas ch keyword limit))"
    by (simp add: generated_names idea_names_distinct)
  then show ?thesis by (simp add: distinct_map)
qed

lemma generated_length:
  "length (generate_domain_ideas ch keyword limit) = length (idea_names ch keyword limit)"
  by (simp add: generate_domain_ideas_def)

lemma occurrences_of_name:
  assumes "CHR ''.'' \<notin> set target"
  shows "filter (\<lambda>x. \<exists>t \<in> set TLDS. x = target @ t) (generate_domain_ideas ch keyword limit)
       = filter (\<lambda>x. takeWhile (\<lambda>c. c \<noteq> CHR ''.'') x = target) (generate_domain_ideas ch keyword limit)"
proof (rule filter_cong [OF refl])
  fix x assume x: "x \<in> set (generate_domain_ideas ch keyword limit)"
  obtain n t where nt: "n \<in> set (idea_names ch keyword limit)" "t \<in> set TLDS" "x = n @ t"
    using generated_shape [OF x] by blast
  have n: "takeWhile (\<lambda>c. c \<noteq> CHR ''.'') x = n"
    using nt idea_names_no_dot name_before_dot by simp
  show "(\<exists>t \<in> set TLDS. x = target @ t) = (takeWhile (\<lambda>c. c \<noteq> CHR ''.'') x = target)"
  proof
    assume "\<exists>t \<in> set TLDS. x = target @ t"
    then show "takeWhile (\<lambda>c. c \<noteq> CHR ''.'') x = target"
      using assms name_before_dot by auto
  next
    assume "takeWhile (\<lambda>c. c \<noteq> CHR ''.'') x = target"
    then have "x = target @ t" using n nt(3) by simp
    then show "\<exists>t \<in> set TLDS. x = target @ t" using nt(2) by blast
  qed
qed

lemma occurrences_count:
  assumes "CHR ''.'' \<notin> set target"
  shows "length (filter (\<lambda>x. \<exists>t \<in> set TLDS. x = target @ t) (generate_domain_ideas ch keyword limit))
       = length (filter (\<lambda>y. y = target) (idea_names ch keyword limit))"
proof -
  let ?out = "generate_domain_ideas ch keyword limit"
  let ?f = "takeWhile (\<lambda>c. c \<noteq> CHR ''.'')"
  have "length (filter (\<lambda>x. \<exists>t \<in> set TLDS. x = target @ t) ?out)
      = length (filter (\<lambda>x. ?f x = target) ?out)"
    by (simp only: occurrences_of_name [OF assms])
  also have "\<dots> = length (filter (\<lambda>y. y = target) (map ?f ?out))"
    by (simp add: filter_map comp_def)
  also have "\<dots> = length (filter (\<lambda>y. y = target) (idea_names ch keyword limit))"
    by (simp only: generated_names)
  finally show ?thesis .
qed

text \<open>The set holds at most 30 names: the extra suffix variant is one of the seven already there.\<close>

lemma added_ideas_card: "card (set (added_ideas extra k)) \<le> 30"
proof -
  let ?core = "map (\<lambda>pre. pre @ k) PREFIXES
     @ concat (map (\<lambda>suf. [k @ suf, k @ ''-'' @ suf]) SUFFIXES)
     @ [k]
     @ concat (map (\<lambda>pre. map (\<lambda>suf. pre @ k @ suf) (take 3 SUFFIXES)) (take 3 PREFIXES))"
  have e: "random_choice SUFFIXES extra \<in> set SUFFIXES"
    by (rule random_choice_mem) (simp add: SUFFIXES_def)
  then have "k @ random_choice SUFFIXES extra \<in> set (concat (map (\<lambda>suf. [k @ suf, k @ ''-'' @ suf]) SUFFIXES))"
    by auto
  then have "set (added_ideas extra k) = set ?core"
    unfolding added_ideas_def by auto
  moreover have "length ?core = 30"
    by (simp add: PREFIXES_def SUFFIXES_def)
  ultimately show ?thesis
    using card_length [of ?core] by simp
qed

lemma idea_names_all:
  assumes "30 \<le> limit"
  shows "set (idea_names ch keyword limit) = set (added_ideas (extra_suffix_pick ch) (sanitize_word keyword))"
proof -
  let ?ideas = "remdups (added_ideas (extra_suffix_pick ch) (sanitize_word keyword))"
  have "length (set_iteration (set_order ch) ?ideas) \<le> 30"
    using added_ideas_card [of "extra_suffix_pick ch" "sanitize_word keyword"]
    by (simp add: set_iteration_length length_remdups_card_conv)
  then have "slice_to limit (set_iteration (set_order ch) ?ideas) = set_iteration (set_order ch) ?ideas"
    using assms by (simp add: slice_to_def)
  then show ?thesis
    by (simp add: idea_names_def Let_def set_iteration_set)
qed

lemma keyword_plus_suffix_added:
  "suf \<in> set SUFFIXES \<Longrightarrow> k @ suf \<in> set (added_ideas extra k)"
  unfolding added_ideas_def by auto

text \<open>
  Claim C5, as amended. For every keyword, every limit that is not negative and every
  outcome of the random draws and of the set's order, \<open>generate_domain_ideas\<close> returns at
  most \<open>limit\<close> entries, each non-empty and ending in one of the five TLDs, and no string
  twice. Each keyword-plus-suffix combination (the sanitized keyword followed by one of the
  seven suffixes, under any TLD) occurs at most once, and exactly once when the limit is
  at least 30, the size the set cannot exceed.
\<close>

theorem generated_ideas_shape:
  assumes "0 \<le> limit"
  shows "length (generate_domain_ideas ch keyword limit) \<le> nat limit
       \<and> (\<forall>x \<in> set (generate_domain_ideas ch keyword limit).
             x \<noteq> [] \<and> (\<exists>name. \<exists>t \<in> set TLDS. x = name @ t))
       \<and> distinct (generate_domain_ideas ch keyword limit)
       \<and> (\<forall>suf \<in> set SUFFIXES.
             length (filter (\<lambda>x. \<exists>t \<in> set TLDS. x = (sanitize_word keyword @ suf) @ t)
                       (generate_domain_ideas ch keyword limit)) \<le> 1)
       \<and> (30 \<le> limit \<longrightarrow>
            (\<forall>suf \<in> set SUFFIXES.
               length (filter (\<lambda>x. \<exists>t \<in> set TLDS. x = (sanitize_word keyword @ suf) @ t)
                         (generate_domain_ideas ch keyword limit)) = 1))"
proof (intro conjI ballI impI)
  show "length (generate_domain_ideas ch keyword limit) \<le> nat limit"
    using assms by (simp add: generated_length idea_names_length)
next
  fix x assume x: "x \<in> set (generate_domain_ideas ch keyword limit)"
  obtain n t where nt: "t \<in> set TLDS" "x = n @ t"
    using generated_shape [OF x] by blast
  then show "x \<noteq> []" using tlds_start_with_dot by fastforce
  show "\<exists>name. \<exists>t \<in> set TLDS. x = name @ t" using nt by blast
next
  show "distinct (generate_domain_ideas ch keyword limit)"
    by (rule generated_distinct)
next
  fix suf assume suf: "suf \<in> set SUFFIXES"
  have nd: "CHR ''.'' \<notin> set (sanitize_word keyword @ suf)"
    using sanitize_no_dot suffixes_no_dot [OF suf] by simp
  show "length (filter (\<lambda>x. \<exists>t \<in> set TLDS. x = (sanitize_word keyword @ suf) @ t)
                       (generate_domain_ideas ch keyword limit)) \<le> 1"
    using distinct_filter_eq_le [OF idea_names_distinct, of "sanitize_word keyword @ suf" ch keyword limit]
      occurrences_count [OF nd, of ch keyword limit]
    by simp
next
  fix suf assume big: "30 \<le> limit" and suf: "suf \<in> set SUFFIXES"
  have nd: "CHR ''.'' \<notin> set (sanitize_word keyword @ suf)"
    using sanitize_no_dot suffixes_no_dot [OF suf] by simp
  have "sanitize_word keyword @ suf \<in> set (idea_names ch keyword limit)"
    using idea_names_all [OF big] keyword_plus_suffix_added [OF suf] by simp
  then have "length (filter (\<lambda>y. y = sanitize_word keyword @ suf) (idea_names ch keyword limit)) = Suc 0"
    by (rule distinct_filter_eq_one [OF idea_names_distinct])
  then show "length (filter (\<lambda>x. \<exists>t \<in> set TLDS. x = (sanitize_word keyword @ suf) @ t)
                       (generate_domain_ideas ch keyword limit)) = 1"
    using occurrences_count [OF nd, of ch keyword limit]
    by simp
qed

theorem generated_ideas_shape_witness:
  "(0::int) \<le> 20
   \<and> length (generate_domain_ideas reversed_order ''k'' 20) \<le> 20
   \<and> distinct (generate_domain_ideas reversed_order ''k'' 20)
   \<and> length (filter (\<lambda>x. \<exists>t \<in> set TLDS. x = (sanitize_word ''k'' @ ''app'') @ t)
               (generate_domain_ideas reversed_order ''k'' 30)) = 1"
proof -
  have s: "''app'' \<in> set SUFFIXES" by (simp add: SUFFIXES_def)
  have z: "(0::int) \<le> 20" "(0::int) \<le> 30" "(30::int) \<le> 30" by simp_all
  note t20 = generated_ideas_shape [OF z(1), of reversed_order "''k''"]
  note t30 = generated_ideas_shape [OF z(2), of reversed_order "''k''"]
  have a: "length (generate_domain_ideas reversed_order ''k'' 20) \<le> 20"
    using t20 by simp
  have b: "distinct (generate_domain_ideas reversed_order ''k'' 20)"
    using t20 by blast
  have "\<forall>suf \<in> set SUFFIXES.
      length (filter (\<lambda>x. \<exists>t \<in> set TLDS. x = (sanitize_word ''k'' @ suf) @ t)
                (generate_domain_ideas reversed_order ''k'' 30)) = 1"
    using t30 z(3) by blast
  then have c: "length (filter (\<lambda>x. \<exists>t \<in> set TLDS. x = (sanitize_word ''k'' @ ''app'') @ t)
               (generate_domain_ideas reversed_order ''k'' 30)) = 1"
    using s by (rule bspec)
  show ?thesis using z(1) a b c by blast
qed

text \<open>
  The claim as it is written fails at the default limit: with 20 of the 30 names kept,
  an order of the set leaves the combination of the keyword \<open>k\<close> and the suffix \<open>app\<close>
  out of the result.
\<close>

theorem generated_ideas_counterexample:
  "''app'' \<in> set SUFFIXES
   \<and> sanitize_word ''k'' @ ''app'' = ''kapp''
   \<and> length (generate_domain_ideas reversed_order ''k'' 20) = 20
   \<and> filter (\<lambda>x. \<exists>t \<in> set TLDS. x = (sanitize_word ''k'' @ ''app'') @ t)
        (generate_domain_ideas reversed_order ''k'' 20) = []"
  by code_simp

text \<open>A negative limit cuts from the end: more than \<open>limit\<close> entries come back.\<close>

lemma negative_limit_example:
  "length (generate_domain_ideas reversed_order ''k'' (- 1)) = 29"
  by code_simp

end
